theory Spec2Isabelle
  imports Main "HOL-Library.AList"
begin

section \<open>Data model of \<^verbatim>\<open>options.ts\<close>\<close>

text \<open>
  The \<^verbatim>\<open>setting\<close> field of a cookie rule is typed by Chrome's declarations as one of
  three string literals.
\<close>

datatype CookiesContentSetting = Allow | Block | Session_only

text \<open>
  \<^verbatim>\<open>type CookieSettingsEntry = Pick<CookieSetDetails, "primaryPattern" | "secondaryPattern" | "setting">\<close>:
  the secondary pattern is an optional property, so it is a string or \<^verbatim>\<open>undefined\<close>.
\<close>

record CookieSettingsEntry =
  primaryPattern :: string
  secondaryPattern :: "string option"
  setting :: CookiesContentSetting

text \<open>
  \<^verbatim>\<open>function keyForEntry(entry) { return `${entry.primaryPattern};${entry.secondaryPattern}` }\<close>

  A template literal converts each substitution with ToString, and ToString of
  \<^verbatim>\<open>undefined\<close> is the nine characters \<^verbatim>\<open>undefined\<close>.
\<close>

definition templateString :: "string option \<Rightarrow> string" where
  "templateString v = (case v of None \<Rightarrow> ''undefined'' | Some s \<Rightarrow> s)"

definition keyForEntry :: "CookieSettingsEntry \<Rightarrow> string" where
  "keyForEntry entry =
     primaryPattern entry @ '';'' @ templateString (secondaryPattern entry)"

text \<open>
  \<^verbatim>\<open>type CookieSettings = Record<string, CookieSettingsEntry>\<close>: a JavaScript object used
  as a dictionary. \<^verbatim>\<open>Object.values\<close> and the spread and rest operators enumerate its
  properties in insertion order (every key this program writes contains \<^verbatim>\<open>;\<close>, so none is
  an array index), hence an association list.
\<close>

type_synonym CookieSettings = "(string \<times> CookieSettingsEntry) list"

section \<open>\<^verbatim>\<open>autoCompletePath\<close> and its regular expression\<close>

text \<open>
  \<^verbatim>\<open>new RegExp("^(.+//[^/]+)(/)?$")\<close> is run by a backtracking matcher. Each piece of
  the pattern is modelled by the list of ways it can consume a prefix of the input, in
  the order the matcher tries them; the whole pattern is the list of successful paths,
  and \<^verbatim>\<open>match\<close> reports the first.

  Without the \<^verbatim>\<open>s\<close> flag the dot matches every character but a line terminator.
  \<^typ>\<open>char\<close> covers the code units below 256, where the line terminators are line
  feed and carriage return (the other two, U+2028 and U+2029, lie outside it).
\<close>

definition isLineTerminator :: "char \<Rightarrow> bool" where
  "isLineTerminator c \<longleftrightarrow> c = CHR 0x0A \<or> c = CHR 0x0D"

text \<open>
  A greedy \<^verbatim>\<open>cls+\<close>: every non-empty prefix made of characters of the class, the
  longest first, each with the rest of the input.
\<close>

definition greedyPlus :: "(char \<Rightarrow> bool) \<Rightarrow> string \<Rightarrow> (string \<times> string) list" where
  "greedyPlus cls s =
     map (\<lambda>k. (take k s, drop k s)) (rev [1..<Suc (length (takeWhile cls s))])"

text \<open>Literal characters: the rest of the input after them, if the input starts with them.\<close>

definition matchLiteral :: "string \<Rightarrow> string \<Rightarrow> string list" where
  "matchLiteral l s = (if take (length l) s = l then [drop (length l) s] else [])"

text \<open>A greedy optional group \<^verbatim>\<open>(l)?\<close>: first with the literal, then without.\<close>

definition greedyOpt :: "string \<Rightarrow> string \<Rightarrow> string list" where
  "greedyOpt l s = matchLiteral l s @ [s]"

text \<open>
  The successful paths of \<^verbatim>\<open>^(.+//[^/]+)(/)?$\<close> on \<open>s\<close>, each giving capture group 1.
  The anchor \<^verbatim>\<open>^\<close> fixes the start of the match at the start of the input, and
  \<^verbatim>\<open>$\<close> (no \<^verbatim>\<open>m\<close> flag) requires that nothing is left.
\<close>

definition patternWithoutPath :: "string \<Rightarrow> string list" where
  "patternWithoutPath s =
     [x @ ''//'' @ y.
        (x, r1) \<leftarrow> greedyPlus (\<lambda>c. \<not> isLineTerminator c) s,
        r2 \<leftarrow> matchLiteral ''//'' r1,
        (y, r3) \<leftarrow> greedyPlus (\<lambda>c. c \<noteq> CHR ''/'') r2,
        r4 \<leftarrow> greedyOpt ''/'' r3,
        r4 = []]"

text \<open>
  \<^verbatim>\<open>pattern.match(patternWithoutPath)\<close>, reduced to what the caller reads:
  \<^verbatim>\<open>null\<close>, or \<^verbatim>\<open>match[1]\<close>.
\<close>

definition match1 :: "string \<Rightarrow> string option" where
  "match1 s = (case patternWithoutPath s of [] \<Rightarrow> None | g # _ \<Rightarrow> Some g)"

definition autoCompletePath :: "string \<Rightarrow> string" where
  "autoCompletePath pattern =
     (case match1 pattern of
        Some patternWithoutTrailingSlash \<Rightarrow> patternWithoutTrailingSlash @ ''/*''
      | None \<Rightarrow> pattern)"

text \<open>
  Two descriptions of inputs, used to state what \<^const>\<open>autoCompletePath\<close> does.
  \<open>stripSlash\<close> drops one trailing slash. \<open>completable\<close> holds of an input that, with
  or without one trailing slash, is a non-empty prefix free of line terminators, then
  \<^verbatim>\<open>//\<close>, then a non-empty last segment free of slashes; the prefix may contain slashes.
\<close>

definition stripSlash :: "string \<Rightarrow> string" where
  "stripSlash p = (if p \<noteq> [] \<and> last p = CHR ''/'' then butlast p else p)"

definition completable :: "string \<Rightarrow> bool" where
  "completable p \<longleftrightarrow>
     (\<exists>x y. x \<noteq> [] \<and> (\<forall>c\<in>set x. \<not> isLineTerminator c) \<and> y \<noteq> [] \<and> CHR ''/'' \<notin> set y
        \<and> (p = x @ ''//'' @ y \<or> p = x @ ''//'' @ y @ ''/''))"

text \<open>
  The specification's wording, ``a scheme-and-host with no path (dropping a single
  trailing slash if present)'': after one trailing slash is dropped, the input is a
  scheme (the non-empty part before the first slash), then \<^verbatim>\<open>//\<close>, then a non-empty
  host without a slash.
\<close>

definition spec_scheme_and_host_only :: "string \<Rightarrow> bool" where
  "spec_scheme_and_host_only p \<longleftrightarrow>
     (let q = stripSlash p;
          scheme = takeWhile (\<lambda>c. c \<noteq> CHR ''/'') q;
          rest = dropWhile (\<lambda>c. c \<noteq> CHR ''/'') q;
          host = drop 2 rest
      in scheme \<noteq> [] \<and> take 2 rest = ''//'' \<and> host \<noteq> [] \<and> CHR ''/'' \<notin> set host)"

section \<open>The browser: state, external calls, and the promise adapter\<close>

text \<open>\<^verbatim>\<open>chrome.runtime.lastError\<close> is an object with an optional \<^verbatim>\<open>message\<close>.\<close>

datatype LastError = LastError (message: "string option")

text \<open>
  The five external calls the page makes through \<^verbatim>\<open>api\<close>:
  \<^verbatim>\<open>api(chrome.contentSettings.cookies, "clear", {})\<close>,
  \<^verbatim>\<open>api(chrome.contentSettings.cookies, "set", entry)\<close>,
  \<^verbatim>\<open>api(chrome.storage.sync, "get", "cookieSettings")\<close>,
  \<^verbatim>\<open>api(chrome.storage.sync, "set", { cookieSettings: ... })\<close> and
  \<^verbatim>\<open>api(chrome.storage.sync, "clear")\<close>.
\<close>

datatype call =
    CookiesClear
  | CookiesSet CookieSettingsEntry
  | SyncGet
  | SyncSet CookieSettings
  | SyncClear

text \<open>
  What Chrome hands to a callback: nothing, or for \<^verbatim>\<open>get\<close> the items object, whose
  \<^verbatim>\<open>cookieSettings\<close> property may be missing.
\<close>

datatype cbValue = Undefined | Items "CookieSettings option"

text \<open>The \<^verbatim>\<open>cookieSettings\<close> member of the object passed to \<^verbatim>\<open>storage.onChanged\<close> listeners.\<close>

record StorageChange =
  oldValue :: "CookieSettings option"
  newValue :: "CookieSettings option"

text \<open>What an observer of the page sees, in order.\<close>

datatype event =
    Issued nat call
  | Settled nat "LastError option"
  | StatusUpdate string

text \<open>
  The state the page reads and writes: the module variable \<^verbatim>\<open>currentSettings\<close>, the text
  of the status element, the ambient \<^verbatim>\<open>chrome.runtime.lastError\<close>, the value stored
  under \<^verbatim>\<open>cookieSettings\<close> in \<^verbatim>\<open>chrome.storage.sync\<close>, the change events raised by the
  store and not yet delivered to the listener, the calls that were issued and whose
  callback has not fired, the number of calls issued so far, and the observable trace.
  The rows of the settings table are left out.
\<close>

record browser =
  currentSettings :: CookieSettings
  statusText :: string
  lastError :: "LastError option"
  syncStore :: "CookieSettings option"
  changes :: "StorageChange list"
  pending :: "(nat \<times> call) list"
  nextCall :: nat
  trace :: "event list"

text \<open>
  What the page does not decide: for the call issued as number \<open>i\<close>, whether Chrome
  reports an error; and, when \<open>n\<close> calls started together are outstanding, which of
  them completes next.
\<close>

record environment =
  outcome :: "nat \<Rightarrow> LastError option"
  schedule :: "nat \<Rightarrow> nat"

text \<open>
  Modelled from the spec: the effect of a successful call on the synchronized store, which
  is Chrome's and not part of the sources (section 6: \<^verbatim>\<open>get\<close>, \<^verbatim>\<open>set\<close> and \<^verbatim>\<open>clear\<close>,
  with a change notification on every change). The rule engine's own state is not
  represented; calls to it are recorded in the trace. A failed call has no effect.
\<close>

fun perform :: "call \<Rightarrow> browser \<Rightarrow> cbValue \<times> browser" where
  "perform CookiesClear w = (Undefined, w)"
| "perform (CookiesSet entry) w = (Undefined, w)"
| "perform SyncGet w = (Items (syncStore w), w)"
| "perform (SyncSet v) w =
     (Undefined,
      if syncStore w = Some v then w
      else w\<lparr>syncStore := Some v,
             changes := changes w @ [\<lparr>oldValue = syncStore w, newValue = Some v\<rparr>]\<rparr>)"
| "perform SyncClear w =
     (Undefined,
      if syncStore w = None then w
      else w\<lparr>syncStore := None,
             changes := changes w @ [\<lparr>oldValue = syncStore w, newValue = None\<rparr>]\<rparr>)"

text \<open>
  \<^verbatim>\<open>function updateStatus()\<close>: \<^verbatim>\<open>lastError.message || "Unknown error"\<close> falls back when
  the message is missing or empty. The line written to the console is left out.
\<close>

definition updateStatus :: "browser \<Rightarrow> browser" where
  "updateStatus w =
     (case lastError w of
        Some err \<Rightarrow>
          (let text = (case message err of
                         Some m \<Rightarrow> if m = [] then ''Unknown error'' else m
                       | None \<Rightarrow> ''Unknown error'')
           in w\<lparr>statusText := text, trace := trace w @ [StatusUpdate text]\<rparr>)
      | None \<Rightarrow> w\<lparr>statusText := [], trace := trace w @ [StatusUpdate []]\<rparr>)"

text \<open>
  The callback that \<^verbatim>\<open>_api\<close> hands to Chrome:
  \<^verbatim>\<open>if (chrome.runtime.lastError) reject(chrome.runtime.lastError) else resolve(cbArg)\<close>.
  A rejected promise is \<open>Inl\<close>, a fulfilled one \<open>Inr\<close>.
\<close>

definition cb :: "LastError option \<Rightarrow> 'v \<Rightarrow> LastError + 'v" where
  "cb err cbArg = (case err of Some e \<Rightarrow> Inl e | None \<Rightarrow> Inr cbArg)"

text \<open>
  Calling \<^verbatim>\<open>api(object, fn, ...fnArgs)\<close> runs \<^verbatim>\<open>object[fn](...fnArgs, cb)\<close> at once: the call
  is issued and stays outstanding until Chrome fires the callback. The result is the
  promise, identified by the number of the call.
\<close>

definition api :: "call \<Rightarrow> browser \<Rightarrow> nat \<times> browser" where
  "api c w =
     (nextCall w,
      w\<lparr>pending := pending w @ [(nextCall w, c)],
        nextCall := Suc (nextCall w),
        trace := trace w @ [Issued (nextCall w) c]\<rparr>)"

text \<open>
  Chrome completes an outstanding call: it performs the call or fails, sets
  \<^verbatim>\<open>lastError\<close> accordingly, and is about to run the callback with the value
  it delivers (nothing for a failed call).
\<close>

definition chromeCompletes ::
  "environment \<Rightarrow> nat \<times> call \<Rightarrow> browser \<Rightarrow> cbValue \<times> browser" where
  "chromeCompletes env p w =
     (let err = outcome env (fst p);
          (cbArg, w1) = (case err of None \<Rightarrow> perform (snd p) w | Some e \<Rightarrow> (Undefined, w))
      in (cbArg,
          w1\<lparr>lastError := err,
             pending := remove1 p (pending w1),
             trace := trace w1 @ [Settled (fst p) err]\<rparr>))"

text \<open>The callback then runs and settles the promise that \<^verbatim>\<open>_api\<close> returned.\<close>

definition callback ::
  "environment \<Rightarrow> nat \<times> call \<Rightarrow> browser \<Rightarrow> (LastError + cbValue) \<times> browser" where
  "callback env p w =
     (let (cbArg, w1) = chromeCompletes env p w in (cb (lastError w1) cbArg, w1))"

text \<open>
  The page's own \<^verbatim>\<open>api\<close> is \<^verbatim>\<open>_api(...args).finally(() => updateStatus())\<close>: when the
  promise settles, \<^verbatim>\<open>updateStatus\<close> runs and the promise's outcome is passed on. The
  handler reads \<^verbatim>\<open>lastError\<close> as the callback left it; afterwards Chrome clears it.
\<close>

definition settle ::
  "environment \<Rightarrow> nat \<times> call \<Rightarrow> browser \<Rightarrow> (LastError + cbValue) \<times> browser" where
  "settle env p w =
     (let (result, w1) = callback env p w;
          w2 = updateStatus w1
      in (result, w2\<lparr>lastError := None\<rparr>))"

text \<open>\<^verbatim>\<open>await api(...)\<close>: issue the call and suspend until its promise has settled.\<close>

definition await :: "environment \<Rightarrow> call \<Rightarrow> browser \<Rightarrow> (LastError + cbValue) \<times> browser" where
  "await env c w = (let (i, w1) = api c w in settle env (i, c) w1)"

text \<open>\<^verbatim>\<open>entries.map((entry) => api(...))\<close>: all calls are issued, none has settled.\<close>

fun issueAll :: "call list \<Rightarrow> browser \<Rightarrow> (nat \<times> call) list \<times> browser" where
  "issueAll [] w = ([], w)"
| "issueAll (c # cs) w =
     (let (i, w1) = api c w; (ps, w2) = issueAll cs w1 in ((i, c) # ps, w2))"

text \<open>
  Outstanding calls complete one at a time, in the order the environment picks, until
  none is left.
\<close>

function settleAll :: "environment \<Rightarrow> (nat \<times> call) list \<Rightarrow> browser \<Rightarrow> browser" where
  "settleAll env ps w =
     (if ps = [] then w
      else let k = schedule env (length ps) mod length ps
           in settleAll env (take k ps @ drop (Suc k) ps) (snd (settle env (ps ! k) w)))"
  by pat_completeness auto
termination
proof (relation "measure (\<lambda>(env, ps, w). length ps)", goal_cases)
  case 1
  show ?case by simp
next
  case (2 env ps w k)
  then have "k < length ps" by simp
  then show ?case by simp
qed

declare settleAll.simps [simp del]

text \<open>
  \<^verbatim>\<open>await Promise.allSettled(promises)\<close>: resumes when every promise has settled and never
  rejects; the page ignores the array of outcomes.
\<close>

definition allSettled :: "environment \<Rightarrow> call list \<Rightarrow> browser \<Rightarrow> browser" where
  "allSettled env cs w = (let (ps, w1) = issueAll cs w in settleAll env ps w1)"

section \<open>The operations of the page\<close>

text \<open>
  \<^verbatim>\<open>function onSyncedSettings(cookieSettings) { currentSettings = cookieSettings || {}; ... }\<close>
\<close>

definition onSyncedSettings :: "CookieSettings option \<Rightarrow> browser \<Rightarrow> browser" where
  "onSyncedSettings cookieSettings w =
     w\<lparr>currentSettings := (case cookieSettings of Some s \<Rightarrow> s | None \<Rightarrow> [])\<rparr>"

text \<open>
  \<^verbatim>\<open>async function removeEntry(entry)\<close>. An \<^verbatim>\<open>await\<close> of a rejected promise throws, and the
  function has no handler, so it ends there with the rejection. The rest pattern
  \<^verbatim>\<open>{ [key]: removedEntry, ...remainingEntries }\<close> copies every property but the one
  under \<open>key\<close>.
\<close>

definition removeEntry ::
  "environment \<Rightarrow> CookieSettingsEntry \<Rightarrow> browser \<Rightarrow> (LastError + unit) \<times> browser" where
  "removeEntry env entry w =
     (case await env CookiesClear w of
        (Inl err, w1) \<Rightarrow> (Inl err, w1)
      | (Inr _, w1) \<Rightarrow>
          (let remainingEntries = AList.delete (keyForEntry entry) (currentSettings w1);
               w2 = allSettled env (map CookiesSet (map snd remainingEntries)) w1
           in case await env (SyncSet remainingEntries) w2 of
                (Inl err, w3) \<Rightarrow> (Inl err, w3)
              | (Inr _, w3) \<Rightarrow> (Inr (), w3)))"

text \<open>
  The initial fetch,
  \<^verbatim>\<open>api(chrome.storage.sync, "get", "cookieSettings").then(({ cookieSettings }) => onSyncedSettings(cookieSettings))\<close>.
  Destructuring \<^verbatim>\<open>undefined\<close> would throw a TypeError.
\<close>

datatype failure = Rejected LastError | TypeError

definition initialFetch :: "environment \<Rightarrow> browser \<Rightarrow> (failure + unit) \<times> browser" where
  "initialFetch env w =
     (case await env SyncGet w of
        (Inl err, w1) \<Rightarrow> (Inl (Rejected err), w1)
      | (Inr Undefined, w1) \<Rightarrow> (Inl TypeError, w1)
      | (Inr (Items cookieSettings), w1) \<Rightarrow> (Inr (), onSyncedSettings cookieSettings w1))"

text \<open>
  The listener on \<^verbatim>\<open>chrome.storage.onChanged\<close>:
  \<^verbatim>\<open>({ cookieSettings }) => { if (cookieSettings) { onSyncedSettings(cookieSettings.newValue) } }\<close>.
\<close>

definition onChangedListener :: "StorageChange option \<Rightarrow> browser \<Rightarrow> browser" where
  "onChangedListener cookieSettings w =
     (case cookieSettings of
        Some change \<Rightarrow> onSyncedSettings (newValue change) w
      | None \<Rightarrow> w)"

text \<open>The event loop delivers the change events raised so far to the listener.\<close>

definition dispatchChanges :: "browser \<Rightarrow> browser" where
  "dispatchChanges w =
     fold (\<lambda>change. onChangedListener (Some change)) (changes w) (w\<lparr>changes := []\<rparr>)"

text \<open>
  The submit handler of the add form, given the values of the two pattern inputs and of
  the setting dropdown.
\<close>

definition submitAddForm ::
  "environment \<Rightarrow> string \<Rightarrow> string \<Rightarrow> CookiesContentSetting \<Rightarrow> browser
     \<Rightarrow> (LastError + unit) \<times> browser" where
  "submitAddForm env primaryInput secondaryInput settingValue w =
     (let entry = \<lparr>primaryPattern = autoCompletePath primaryInput,
                   secondaryPattern =
                     (if secondaryInput \<noteq> [] then Some (autoCompletePath secondaryInput)
                      else None),
                   setting = settingValue\<rparr>
      in case await env (CookiesSet entry) w of
           (Inl err, w1) \<Rightarrow> (Inl err, w1)
         | (Inr _, w1) \<Rightarrow>
             (case await env
                     (SyncSet (AList.update (keyForEntry entry) entry (currentSettings w1))) w1 of
                (Inl err, w2) \<Rightarrow> (Inl err, w2)
              | (Inr _, w2) \<Rightarrow> (Inr (), w2)))"

text \<open>
  The click handler of the ``set all'' button: a plain function whose loop calls
  \<^verbatim>\<open>api\<close> for each entry and keeps none of the promises.
\<close>

definition clickSetAll :: "browser \<Rightarrow> browser" where
  "clickSetAll w =
     fold (\<lambda>entry w'. snd (api (CookiesSet entry) w')) (map snd (currentSettings w)) w"

text \<open>
  The click handler of the ``clear all'' button; \<open>confirmed\<close> is the answer to
  \<^verbatim>\<open>window.confirm("Clear all settings?")\<close>.
\<close>

definition clickClearAll ::
  "environment \<Rightarrow> bool \<Rightarrow> browser \<Rightarrow> (LastError + unit) \<times> browser" where
  "clickClearAll env confirmed w =
     (if confirmed then
        (case await env CookiesClear w of
           (Inl err, w1) \<Rightarrow> (Inl err, w1)
         | (Inr _, w1) \<Rightarrow>
             (case await env SyncClear w1 of
                (Inl err, w2) \<Rightarrow> (Inl err, w2)
              | (Inr _, w2) \<Rightarrow> (Inr (), w2)))
      else (Inr (), w))"

section \<open>Observations on traces, and a running example\<close>

text \<open>The external calls of a trace, in the order they were issued.\<close>

definition calls :: "event list \<Rightarrow> call list" where
  "calls t = concat (map (\<lambda>e. case e of Issued i c \<Rightarrow> [c] | _ \<Rightarrow> []) t)"

text \<open>The rule sets handed to \<^verbatim>\<open>chrome.storage.sync.set\<close>, in order.\<close>

definition persistCalls :: "event list \<Rightarrow> CookieSettings list" where
  "persistCalls t = concat (map (\<lambda>c. case c of SyncSet v \<Rightarrow> [v] | _ \<Rightarrow> []) (calls t))"

text \<open>The numbers of the calls whose callback ran, in the order they completed.\<close>

definition settledIds :: "event list \<Rightarrow> nat list" where
  "settledIds t = concat (map (\<lambda>e. case e of Settled i r \<Rightarrow> [i] | _ \<Rightarrow> []) t)"

text \<open>The calls that go to the rule engine.\<close>

definition engineCall :: "call \<Rightarrow> bool" where
  "engineCall c = (case c of CookiesClear \<Rightarrow> True | CookiesSet e \<Rightarrow> True | _ \<Rightarrow> False)"

text \<open>What the status element shows for a value of \<^verbatim>\<open>lastError\<close>.\<close>

definition rendered :: "LastError option \<Rightarrow> string" where
  "rendered err =
     (case err of
        Some e \<Rightarrow> (case message e of
                    Some m \<Rightarrow> if m = [] then ''Unknown error'' else m
                  | None \<Rightarrow> ''Unknown error'')
      | None \<Rightarrow> [])"

text \<open>The number of status updates, and of completed calls, in a trace.\<close>

definition statusUpdates :: "event list \<Rightarrow> nat" where
  "statusUpdates t = length (filter (\<lambda>e. case e of StatusUpdate s \<Rightarrow> True | _ \<Rightarrow> False) t)"

definition settlements :: "event list \<Rightarrow> nat" where
  "settlements t = length (filter (\<lambda>e. case e of Settled i r \<Rightarrow> True | _ \<Rightarrow> False) t)"

text \<open>
  The mirror agrees with the store and no change event is waiting.
\<close>

definition inSync :: "browser \<Rightarrow> bool" where
  "inSync w \<longleftrightarrow>
     changes w = [] \<and> currentSettings w = (case syncStore w of Some s \<Rightarrow> s | None \<Rightarrow> [])"

text \<open>Three rules \<open>A\<close>, \<open>B\<close>, \<open>C\<close>, a page that holds them, and some environments.\<close>

definition entryA :: CookieSettingsEntry where
  "entryA = \<lparr>primaryPattern = ''a.com/*'', secondaryPattern = None, setting = Block\<rparr>"

definition entryB :: CookieSettingsEntry where
  "entryB = \<lparr>primaryPattern = ''b.com/*'', secondaryPattern = None, setting = Allow\<rparr>"

definition entryC :: CookieSettingsEntry where
  "entryC = \<lparr>primaryPattern = ''c.com/*'', secondaryPattern = Some ''d.com/*'',
              setting = Session_only\<rparr>"

definition settingsABC :: CookieSettings where
  "settingsABC =
     [(keyForEntry entryA, entryA), (keyForEntry entryB, entryB), (keyForEntry entryC, entryC)]"

definition browserABC :: browser where
  "browserABC =
     \<lparr>currentSettings = settingsABC, statusText = [], lastError = None,
      syncStore = Some settingsABC, changes = [], pending = [], nextCall = 0, trace = []\<rparr>"

text \<open>The page as it starts, \<^verbatim>\<open>let currentSettings = {}\<close>, over a store that holds nothing.\<close>

definition emptyBrowser :: browser where
  "emptyBrowser =
     \<lparr>currentSettings = [], statusText = [], lastError = None, syncStore = None,
      changes = [], pending = [], nextCall = 0, trace = []\<rparr>"

text \<open>A page that still shows \<open>A\<close>, \<open>B\<close>, \<open>C\<close> over a store that holds nothing.\<close>

definition outOfStep :: browser where
  "outOfStep = browserABC\<lparr>syncStore := None\<rparr>"

definition invalidPattern :: LastError where
  "invalidPattern = LastError (Some ''Invalid pattern'')"

definition allSucceed :: environment where
  "allSucceed = \<lparr>outcome = (\<lambda>i. None), schedule = (\<lambda>n. 0)\<rparr>"

definition secondCallFails :: environment where
  "secondCallFails =
     \<lparr>outcome = (\<lambda>i. if i = 1 then Some invalidPattern else None), schedule = (\<lambda>n. 1)\<rparr>"

definition firstCallFails :: environment where
  "firstCallFails =
     \<lparr>outcome = (\<lambda>i. if i = 0 then Some invalidPattern else None), schedule = (\<lambda>n. 0)\<rparr>"

section \<open>Facts about the adapter and the event loop\<close>

text \<open>
  What issuing a call, completing it and awaiting it do to each part of the state.
\<close>

lemma api_simps [simp]:
  "fst (api c w) = nextCall w"
  "currentSettings (snd (api c w)) = currentSettings w"
  "statusText (snd (api c w)) = statusText w"
  "lastError (snd (api c w)) = lastError w"
  "syncStore (snd (api c w)) = syncStore w"
  "changes (snd (api c w)) = changes w"
  "pending (snd (api c w)) = pending w @ [(nextCall w, c)]"
  "nextCall (snd (api c w)) = Suc (nextCall w)"
  "trace (snd (api c w)) = trace w @ [Issued (nextCall w) c]"
  by (simp_all add: api_def)

lemma calls_append [simp]: "calls (s @ t) = calls s @ calls t"
  by (simp add: calls_def)

lemma calls_simps [simp]:
  "calls [] = []"
  "calls (Issued i c # t) = c # calls t"
  "calls (Settled i r # t) = calls t"
  "calls (StatusUpdate s # t) = calls t"
  by (simp_all add: calls_def)

lemma statusUpdates_append [simp]: "statusUpdates (s @ t) = statusUpdates s + statusUpdates t"
  by (simp add: statusUpdates_def)

lemma statusUpdates_simps [simp]:
  "statusUpdates [] = 0"
  "statusUpdates (Issued i c # t) = statusUpdates t"
  "statusUpdates (Settled i r # t) = statusUpdates t"
  "statusUpdates (StatusUpdate s # t) = Suc (statusUpdates t)"
  by (simp_all add: statusUpdates_def)

lemma settlements_append [simp]: "settlements (s @ t) = settlements s + settlements t"
  by (simp add: settlements_def)

lemma settlements_simps [simp]:
  "settlements [] = 0"
  "settlements (Issued i c # t) = settlements t"
  "settlements (Settled i r # t) = Suc (settlements t)"
  "settlements (StatusUpdate s # t) = settlements t"
  by (simp_all add: settlements_def)

lemma perform_frame [simp]:
  "currentSettings (snd (perform c w)) = currentSettings w"
  "statusText (snd (perform c w)) = statusText w"
  "lastError (snd (perform c w)) = lastError w"
  "pending (snd (perform c w)) = pending w"
  "nextCall (snd (perform c w)) = nextCall w"
  "trace (snd (perform c w)) = trace w"
  by (cases c; simp)+

lemma chromeCompletes_simps [simp]:
  "currentSettings (snd (chromeCompletes env p w)) = currentSettings w"
  "statusText (snd (chromeCompletes env p w)) = statusText w"
  "lastError (snd (chromeCompletes env p w)) = outcome env (fst p)"
  "pending (snd (chromeCompletes env p w)) = remove1 p (pending w)"
  "nextCall (snd (chromeCompletes env p w)) = nextCall w"
  "trace (snd (chromeCompletes env p w)) = trace w @ [Settled (fst p) (outcome env (fst p))]"
  by (simp_all add: chromeCompletes_def Let_def split_beta split: option.splits)

lemma chromeCompletes_store:
  "syncStore (snd (chromeCompletes env p w))
     = (case outcome env (fst p) of None \<Rightarrow> syncStore (snd (perform (snd p) w)) | Some e \<Rightarrow> syncStore w)"
  "changes (snd (chromeCompletes env p w))
     = (case outcome env (fst p) of None \<Rightarrow> changes (snd (perform (snd p) w)) | Some e \<Rightarrow> changes w)"
  "fst (chromeCompletes env p w)
     = (case outcome env (fst p) of None \<Rightarrow> fst (perform (snd p) w) | Some e \<Rightarrow> Undefined)"
  by (simp_all add: chromeCompletes_def Let_def split_beta split: option.splits)

lemma callback_eq:
  "callback env p w =
     (cb (outcome env (fst p)) (fst (chromeCompletes env p w)), snd (chromeCompletes env p w))"
  by (simp add: callback_def split_beta)

lemma updateStatus_eq:
  "updateStatus w =
     w\<lparr>statusText := rendered (lastError w),
       trace := trace w @ [StatusUpdate (rendered (lastError w))]\<rparr>"
  by (simp add: updateStatus_def rendered_def Let_def split: option.splits)

lemma settle_eq:
  "settle env p w =
     (cb (outcome env (fst p)) (fst (chromeCompletes env p w)),
      (snd (chromeCompletes env p w))\<lparr>statusText := rendered (outcome env (fst p)),
         trace := trace w @ [Settled (fst p) (outcome env (fst p)),
                             StatusUpdate (rendered (outcome env (fst p)))],
         lastError := None\<rparr>)"
  by (simp add: settle_def callback_eq updateStatus_eq)

lemma settle_simps [simp]:
  "fst (settle env p w) = cb (outcome env (fst p)) (fst (chromeCompletes env p w))"
  "currentSettings (snd (settle env p w)) = currentSettings w"
  "statusText (snd (settle env p w)) = rendered (outcome env (fst p))"
  "lastError (snd (settle env p w)) = None"
  "syncStore (snd (settle env p w)) = syncStore (snd (chromeCompletes env p w))"
  "changes (snd (settle env p w)) = changes (snd (chromeCompletes env p w))"
  "pending (snd (settle env p w)) = remove1 p (pending w)"
  "nextCall (snd (settle env p w)) = nextCall w"
  "trace (snd (settle env p w)) =
     trace w @ [Settled (fst p) (outcome env (fst p)), StatusUpdate (rendered (outcome env (fst p)))]"
  by (simp_all add: settle_eq)

lemma await_simps [simp]:
  "fst (await env c w)
     = cb (outcome env (nextCall w)) (fst (chromeCompletes env (nextCall w, c) (snd (api c w))))"
  "currentSettings (snd (await env c w)) = currentSettings w"
  "statusText (snd (await env c w)) = rendered (outcome env (nextCall w))"
  "lastError (snd (await env c w)) = None"
  "pending (snd (await env c w)) = remove1 (nextCall w, c) (pending w @ [(nextCall w, c)])"
  "nextCall (snd (await env c w)) = Suc (nextCall w)"
  "trace (snd (await env c w)) =
     trace w @ [Issued (nextCall w) c, Settled (nextCall w) (outcome env (nextCall w)),
                StatusUpdate (rendered (outcome env (nextCall w)))]"
  by (simp_all add: await_def split_beta)

lemma await_store:
  "syncStore (snd (await env c w))
     = syncStore (snd (chromeCompletes env (nextCall w, c) (snd (api c w))))"
  "changes (snd (await env c w))
     = changes (snd (chromeCompletes env (nextCall w, c) (snd (api c w))))"
  by (simp_all add: await_def split_beta)


lemma issueAll_fst: "fst (issueAll cs w) = zip [nextCall w ..< nextCall w + length cs] cs"
proof (induction cs arbitrary: w)
  case Nil
  show ?case by simp
next
  case (Cons c cs)
  have "[nextCall w ..< nextCall w + length (c # cs)]
          = nextCall w # [Suc (nextCall w) ..< nextCall w + length (c # cs)]"
    by (rule upt_conv_Cons) simp
  then show ?case using Cons.IH[of "snd (api c w)"] by (simp add: split_beta)
qed

lemma issueAll_simps [simp]:
  "currentSettings (snd (issueAll cs w)) = currentSettings w"
  "statusText (snd (issueAll cs w)) = statusText w"
  "lastError (snd (issueAll cs w)) = lastError w"
  "syncStore (snd (issueAll cs w)) = syncStore w"
  "changes (snd (issueAll cs w)) = changes w"
  "nextCall (snd (issueAll cs w)) = nextCall w + length cs"
  "pending (snd (issueAll cs w)) = pending w @ fst (issueAll cs w)"
  "calls (trace (snd (issueAll cs w))) = calls (trace w) @ cs"
  "statusUpdates (trace (snd (issueAll cs w))) = statusUpdates (trace w)"
  "settlements (trace (snd (issueAll cs w))) = settlements (trace w)"
  by (induction cs arbitrary: w; simp add: split_beta)+

lemma clickSetAll_eq:
  "clickSetAll w = snd (issueAll (map CookiesSet (map snd (currentSettings w))) w)"
proof -
  have "fold (\<lambda>entry w'. snd (api (CookiesSet entry) w')) es w = snd (issueAll (map CookiesSet es) w)"
    for es w
    by (induction es arbitrary: w) (simp_all add: split_beta)
  then show ?thesis by (simp add: clickSetAll_def)
qed

lemma chromeCompletes_engineCall:
  "engineCall (snd p) \<Longrightarrow>
     syncStore (snd (chromeCompletes env p w)) = syncStore w
     \<and> changes (snd (chromeCompletes env p w)) = changes w"
  by (cases "snd p") (simp_all add: chromeCompletes_store engineCall_def split: option.splits)

lemma settleAll_Nil [simp]: "settleAll env [] w = w"
  by (subst settleAll.simps) simp

lemma settleAll_frame:
  "currentSettings (settleAll env ps w) = currentSettings w
   \<and> nextCall (settleAll env ps w) = nextCall w
   \<and> calls (trace (settleAll env ps w)) = calls (trace w)
   \<and> statusUpdates (trace (settleAll env ps w)) = statusUpdates (trace w) + length ps
   \<and> settlements (trace (settleAll env ps w)) = settlements (trace w) + length ps"
proof (induction env ps w rule: settleAll.induct)
  case (1 env ps w)
  show ?case
  proof (cases "ps = []")
    case True
    then show ?thesis by simp
  next
    case False
    define k where "k = schedule env (length ps) mod length ps"
    define rest where "rest = take k ps @ drop (Suc k) ps"
    have k: "k < length ps" using False by (simp add: k_def)
    have len: "length ps = Suc (length rest)" using k by (simp add: rest_def)
    have step: "settleAll env ps w = settleAll env rest (snd (settle env (ps ! k) w))"
      using False by (subst settleAll.simps) (simp add: k_def rest_def Let_def)
    have IH: "currentSettings (settleAll env rest (snd (settle env (ps ! k) w)))
                = currentSettings (snd (settle env (ps ! k) w))
              \<and> nextCall (settleAll env rest (snd (settle env (ps ! k) w)))
                = nextCall (snd (settle env (ps ! k) w))
              \<and> calls (trace (settleAll env rest (snd (settle env (ps ! k) w))))
                = calls (trace (snd (settle env (ps ! k) w)))
              \<and> statusUpdates (trace (settleAll env rest (snd (settle env (ps ! k) w))))
                = statusUpdates (trace (snd (settle env (ps ! k) w))) + length rest
              \<and> settlements (trace (settleAll env rest (snd (settle env (ps ! k) w))))
                = settlements (trace (snd (settle env (ps ! k) w))) + length rest"
      using "1.IH"[OF False k_def] by (simp only: rest_def)
    show ?thesis unfolding step using IH by (simp add: len)
  qed
qed

lemma settleAll_store:
  "\<forall>p\<in>set ps. engineCall (snd p) \<Longrightarrow>
     syncStore (settleAll env ps w) = syncStore w \<and> changes (settleAll env ps w) = changes w"
proof (induction env ps w rule: settleAll.induct)
  case (1 env ps w)
  show ?case
  proof (cases "ps = []")
    case True
    then show ?thesis by simp
  next
    case False
    define k where "k = schedule env (length ps) mod length ps"
    have k: "k < length ps" using False by (simp add: k_def)
    have sub: "set (take k ps @ drop (Suc k) ps) \<subseteq> set ps"
      using set_take_subset[of k ps] set_drop_subset[of "Suc k" ps] by auto
    then have rest: "\<forall>p\<in>set (take k ps @ drop (Suc k) ps). engineCall (snd p)"
      using "1.prems" by blast
    have here: "engineCall (snd (ps ! k))" using "1.prems" k by simp
    have step: "settleAll env ps w
                  = settleAll env (take k ps @ drop (Suc k) ps) (snd (settle env (ps ! k) w))"
      using False by (subst settleAll.simps) (simp add: k_def Let_def)
    show ?thesis
      using "1.IH"[OF False k_def rest] chromeCompletes_engineCall[OF here] unfolding step by simp
  qed
qed

lemma allSettled_frame [simp]:
  "currentSettings (allSettled env cs w) = currentSettings w"
  "nextCall (allSettled env cs w) = nextCall w + length cs"
  "calls (trace (allSettled env cs w)) = calls (trace w) @ cs"
  "statusUpdates (trace (allSettled env cs w)) = statusUpdates (trace w) + length cs"
  "settlements (trace (allSettled env cs w)) = settlements (trace w) + length cs"
  by (simp_all add: allSettled_def split_beta settleAll_frame issueAll_fst)

lemma allSettled_store:
  assumes "\<forall>c\<in>set cs. engineCall c"
  shows "syncStore (allSettled env cs w) = syncStore w" "changes (allSettled env cs w) = changes w"
proof -
  have "\<forall>p\<in>set (fst (issueAll cs w)). engineCall (snd p)"
    using assms by (auto simp: issueAll_fst dest: set_zip_rightD)
  then show "syncStore (allSettled env cs w) = syncStore w" "changes (allSettled env cs w) = changes w"
    by (simp_all add: allSettled_def split_beta settleAll_store)
qed

lemma await_engine_store:
  "engineCall c \<Longrightarrow> syncStore (snd (await env c w)) = syncStore w
                   \<and> changes (snd (await env c w)) = changes w"
  using chromeCompletes_engineCall[of "(nextCall w, c)" env "snd (api c w)"]
  by (simp add: await_store)

lemma settledIds_append [simp]: "settledIds (s @ t) = settledIds s @ settledIds t"
  by (simp add: settledIds_def)

lemma settledIds_simps [simp]:
  "settledIds [] = []"
  "settledIds (Issued i c # t) = settledIds t"
  "settledIds (Settled i r # t) = i # settledIds t"
  "settledIds (StatusUpdate s # t) = settledIds t"
  by (simp_all add: settledIds_def)

lemma issueAll_trace:
  "trace (snd (issueAll cs w)) = trace w @ map (\<lambda>(i, c). Issued i c) (fst (issueAll cs w))"
  by (induction cs arbitrary: w) (simp_all add: split_beta)

lemma remove_nth_set:
  assumes "k < length ps"
  shows "insert (ps ! k) (set (take k ps @ drop (Suc k) ps)) = set ps"
proof -
  have "ps = take k ps @ ps ! k # drop (Suc k) ps" using assms by (rule id_take_nth_drop)
  then have "set ps = set (take k ps @ ps ! k # drop (Suc k) ps)" by simp
  then show ?thesis by simp
qed

lemma settleAll_trace:
  "\<exists>t. trace (settleAll env ps w) = trace w @ t
       \<and> calls t = [] \<and> length t = 2 * length ps
       \<and> length (settledIds t) = length ps \<and> set (settledIds t) = fst ` set ps"
proof (induction env ps w rule: settleAll.induct)
  case (1 env ps w)
  show ?case
  proof (cases "ps = []")
    case True
    then show ?thesis by simp
  next
    case False
    define k where "k = schedule env (length ps) mod length ps"
    define rest where "rest = take k ps @ drop (Suc k) ps"
    define w1 where "w1 = snd (settle env (ps ! k) w)"
    have k: "k < length ps" using False by (simp add: k_def)
    have len: "length ps = Suc (length rest)" using k by (simp add: rest_def)
    have sets: "insert (ps ! k) (set rest) = set ps"
      unfolding rest_def using k by (rule remove_nth_set)
    have step: "settleAll env ps w = settleAll env rest w1"
      using False by (subst settleAll.simps) (simp add: k_def rest_def w1_def Let_def)
    from "1.IH"[OF False k_def] obtain t where
      t: "trace (settleAll env rest w1) = trace w1 @ t" "calls t = []"
         "length t = 2 * length rest"
         "length (settledIds t) = length rest" "set (settledIds t) = fst ` set rest"
      unfolding rest_def w1_def by blast
    define t' where "t' = [Settled (fst (ps ! k)) (outcome env (fst (ps ! k))),
                          StatusUpdate (rendered (outcome env (fst (ps ! k))))] @ t"
    have "trace (settleAll env ps w) = trace w @ t'"
      unfolding step using t(1) by (simp add: w1_def t'_def)
    moreover have "calls t' = []" "length t' = 2 * length ps"
      "length (settledIds t') = length ps"
      using t by (simp_all add: t'_def len)
    moreover have "set (settledIds t') = fst ` set ps"
    proof -
      have "set (settledIds t') = insert (fst (ps ! k)) (fst ` set rest)"
        using t(5) by (simp add: t'_def)
      also have "\<dots> = fst ` insert (ps ! k) (set rest)" by simp
      finally show ?thesis by (simp only: sets)
    qed
    ultimately show ?thesis by blast
  qed
qed

lemma allSettled_trace:
  "\<exists>t. trace (allSettled env cs w)
         = trace w @ map (\<lambda>(i, c). Issued i c) (zip [nextCall w ..< nextCall w + length cs] cs) @ t
       \<and> calls t = [] \<and> length t = 2 * length cs
       \<and> length (settledIds t) = length cs
       \<and> set (settledIds t) = {nextCall w ..< nextCall w + length cs}"
proof -
  let ?ps = "zip [nextCall w ..< nextCall w + length cs] cs"
  have ps: "fst (issueAll cs w) = ?ps" by (rule issueAll_fst)
  have "map fst ?ps = [nextCall w ..< nextCall w + length cs]" by simp
  then have "set (map fst ?ps) = {nextCall w ..< nextCall w + length cs}" by simp
  then have ids: "fst ` set ?ps = {nextCall w ..< nextCall w + length cs}" by (simp only: set_map)
  from settleAll_trace[of env ?ps "snd (issueAll cs w)"] obtain t where
    t: "trace (settleAll env ?ps (snd (issueAll cs w))) = trace (snd (issueAll cs w)) @ t"
       "calls t = []" "length t = 2 * length ?ps"
       "length (settledIds t) = length ?ps" "set (settledIds t) = fst ` set ?ps"
    by blast
  have "trace (allSettled env cs w) = trace w @ map (\<lambda>(i, c). Issued i c) ?ps @ t"
    using t(1) by (simp add: allSettled_def split_beta ps issueAll_trace)
  moreover have "length ?ps = length cs" by simp
  ultimately show ?thesis using t ids by auto
qed

lemma cb_simps [simp]: "cb None v = Inr v" "cb (Some e) v = Inl e"
  by (simp_all add: cb_def)

lemma persistCalls_append [simp]: "persistCalls (s @ t) = persistCalls s @ persistCalls t"
  by (simp add: persistCalls_def)

lemma persistCalls_of_calls:
  "persistCalls t = concat (map (\<lambda>c. case c of SyncSet v \<Rightarrow> [v] | _ \<Rightarrow> []) (calls t))"
  by (simp add: persistCalls_def)

lemma engine_calls_persist_nothing:
  "concat (map (\<lambda>c. case c of SyncSet v \<Rightarrow> [v] | _ \<Rightarrow> []) (map CookiesSet es)) = []"
  by (induction es) simp_all

lemma removeEntry_failed_clear:
  assumes "outcome env (nextCall w) = Some err"
  shows "removeEntry env entry w = (Inl err, snd (await env CookiesClear w))"
  using assms by (simp add: removeEntry_def split_beta)

lemma removeEntry_cleared:
  assumes "outcome env (nextCall w) = None"
  shows "removeEntry env entry w =
     (let remaining = AList.delete (keyForEntry entry) (currentSettings w);
          w2 = allSettled env (map CookiesSet (map snd remaining)) (snd (await env CookiesClear w))
      in (case outcome env (nextCall w + Suc (length remaining)) of
            Some err \<Rightarrow> Inl err | None \<Rightarrow> Inr (),
          snd (await env (SyncSet remaining) w2)))"
  using assms
  by (simp add: removeEntry_def split_beta Let_def allSettled_frame split: option.splits)

lemma set_calls_engine: "\<forall>c\<in>set (map CookiesSet es). engineCall c"
  by (simp add: engineCall_def)

lemma removeEntry_calls:
  "calls (trace (snd (removeEntry env entry w))) =
     calls (trace w) @ CookiesClear #
       (if outcome env (nextCall w) = None
        then map CookiesSet (map snd (AList.delete (keyForEntry entry) (currentSettings w)))
               @ [SyncSet (AList.delete (keyForEntry entry) (currentSettings w))]
        else [])"
proof (cases "outcome env (nextCall w)")
  case None
  then show ?thesis by (simp add: removeEntry_cleared Let_def allSettled_frame)
next
  case (Some err)
  then show ?thesis by (simp add: removeEntry_failed_clear)
qed

lemma removeEntry_store:
  assumes "outcome env (nextCall w) = None"
    and "outcome env (nextCall w + Suc (length (AList.delete (keyForEntry entry) (currentSettings w)))) = None"
  shows "syncStore (snd (removeEntry env entry w)) = Some (AList.delete (keyForEntry entry) (currentSettings w))"
    and "fst (removeEntry env entry w) = Inr ()"
  using assms
  by (simp_all add: removeEntry_cleared Let_def await_store chromeCompletes_store allSettled_frame)

lemma removeEntry_mirror:
  "currentSettings (snd (removeEntry env entry w)) = currentSettings w"
  by (cases "outcome env (nextCall w)")
     (simp_all add: removeEntry_cleared removeEntry_failed_clear Let_def)


lemma AList_delete_retains:
  "(k, r) \<in> set S \<Longrightarrow> k \<noteq> key \<Longrightarrow> (k, r) \<in> set (AList.delete key S)"
  by (auto simp: AList.delete_eq)

section \<open>Facts about the regular expression\<close>

text \<open>
  The successful paths of the matcher are exactly the decompositions of the input into
  a prefix, \<^verbatim>\<open>//\<close> and a last segment; all of them give the same capture group.
\<close>

lemma le_length_takeWhile:
  "k \<le> length (takeWhile P s) \<longleftrightarrow> k \<le> length s \<and> (\<forall>c\<in>set (take k s). P c)"
proof (induction s arbitrary: k)
  case Nil
  then show ?case by simp
next
  case (Cons a s)
  then show ?case by (cases k) auto
qed

lemma set_greedyPlus:
  "set (greedyPlus P s) = {(x, r). s = x @ r \<and> x \<noteq> [] \<and> (\<forall>c\<in>set x. P c)}"
proof (rule set_eqI, clarify)
  fix x r
  show "(x, r) \<in> set (greedyPlus P s) \<longleftrightarrow> (x, r) \<in> {(x, r). s = x @ r \<and> x \<noteq> [] \<and> (\<forall>c\<in>set x. P c)}"
  proof
    assume "(x, r) \<in> set (greedyPlus P s)"
    then obtain k where k: "1 \<le> k" "k \<le> length (takeWhile P s)" "x = take k s" "r = drop k s"
      by (auto simp: greedyPlus_def)
    from k(2) have "k \<le> length s" "\<forall>c\<in>set (take k s). P c"
      by (simp_all add: le_length_takeWhile)
    with k show "(x, r) \<in> {(x, r). s = x @ r \<and> x \<noteq> [] \<and> (\<forall>c\<in>set x. P c)}"
      by auto
  next
    assume "(x, r) \<in> {(x, r). s = x @ r \<and> x \<noteq> [] \<and> (\<forall>c\<in>set x. P c)}"
    then have s: "s = x @ r" and x: "x \<noteq> []" "\<forall>c\<in>set x. P c" by auto
    have "length x \<le> length (takeWhile P s)"
      using s x by (simp add: le_length_takeWhile)
    moreover have "1 \<le> length x" using x by (cases x) auto
    moreover have "x = take (length x) s" "r = drop (length x) s" using s by auto
    ultimately show "(x, r) \<in> set (greedyPlus P s)"
      unfolding greedyPlus_def by (auto simp: image_iff intro!: bexI[of _ "length x"])
  qed
qed

lemma set_matchLiteral: "set (matchLiteral l s) = {r. s = l @ r}"
  by (auto simp: matchLiteral_def) (metis append_take_drop_id)

lemma set_greedyOpt: "set (greedyOpt l s) = {r. s = l @ r \<or> r = s}"
  by (auto simp: greedyOpt_def set_matchLiteral)

lemma mem_patternWithoutPath:
  "g \<in> set (patternWithoutPath s) \<longleftrightarrow>
     (\<exists>x r1 r2 y r3 r4. (x, r1) \<in> set (greedyPlus (\<lambda>c. \<not> isLineTerminator c) s)
        \<and> r2 \<in> set (matchLiteral ''//'' r1)
        \<and> (y, r3) \<in> set (greedyPlus (\<lambda>c. c \<noteq> CHR ''/'') r2)
        \<and> r4 \<in> set (greedyOpt ''/'' r3) \<and> r4 = [] \<and> g = x @ ''//'' @ y)"
  by (simp add: patternWithoutPath_def split_beta Bex_def)

lemma set_patternWithoutPath:
  "set (patternWithoutPath s) =
     {g. \<exists>x y. g = x @ ''//'' @ y \<and> x \<noteq> [] \<and> (\<forall>c\<in>set x. \<not> isLineTerminator c)
           \<and> y \<noteq> [] \<and> CHR ''/'' \<notin> set y \<and> (s = g \<or> s = g @ ''/'')}"
  (is "_ = ?R")
proof (rule set_eqI)
  fix g
  show "g \<in> set (patternWithoutPath s) \<longleftrightarrow> g \<in> ?R"
  proof
    assume "g \<in> set (patternWithoutPath s)"
    then obtain x r1 r2 y r3 r4 where
      a: "(x, r1) \<in> set (greedyPlus (\<lambda>c. \<not> isLineTerminator c) s)"
      and b: "r2 \<in> set (matchLiteral ''//'' r1)"
      and c: "(y, r3) \<in> set (greedyPlus (\<lambda>c. c \<noteq> CHR ''/'') r2)"
      and d: "r4 \<in> set (greedyOpt ''/'' r3)" and e: "r4 = []" and g: "g = x @ ''//'' @ y"
      unfolding mem_patternWithoutPath by blast
    from a have a': "s = x @ r1" "x \<noteq> []" "\<forall>c\<in>set x. \<not> isLineTerminator c"
      by (simp_all add: set_greedyPlus)
    from b have b': "r1 = ''//'' @ r2" by (simp add: set_matchLiteral)
    from c have c': "r2 = y @ r3" "y \<noteq> []" "CHR ''/'' \<notin> set y"
      by (auto simp add: set_greedyPlus)
    from d e have d': "r3 = ''/'' \<or> r3 = []" by (auto simp add: set_greedyOpt)
    have "s = g \<or> s = g @ ''/''" using a'(1) b' c'(1) d' g by auto
    with a' c' g show "g \<in> ?R" by blast
  next
    assume "g \<in> ?R"
    then obtain x y where g: "g = x @ ''//'' @ y" and x: "x \<noteq> []" "\<forall>c\<in>set x. \<not> isLineTerminator c"
      and y: "y \<noteq> []" "CHR ''/'' \<notin> set y" and s: "s = g \<or> s = g @ ''/''" by blast
    define r3 where "r3 = (if s = g then [] else ''/'')"
    have s': "s = x @ ''//'' @ y @ r3" using s g by (auto simp: r3_def)
    have "(x, ''//'' @ y @ r3) \<in> set (greedyPlus (\<lambda>c. \<not> isLineTerminator c) s)"
      using s' x by (simp add: set_greedyPlus)
    moreover have "y @ r3 \<in> set (matchLiteral ''//'' (''//'' @ y @ r3))" by (simp add: set_matchLiteral)
    moreover have "(y, r3) \<in> set (greedyPlus (\<lambda>c. c \<noteq> CHR ''/'') (y @ r3))"
      using y by (auto simp add: set_greedyPlus)
    moreover have "[] \<in> set (greedyOpt ''/'' r3)" by (auto simp: set_greedyOpt r3_def)
    ultimately show "g \<in> set (patternWithoutPath s)"
      unfolding mem_patternWithoutPath using g by blast
  qed
qed

lemma last_of_match:
  assumes "y \<noteq> []" "CHR ''/'' \<notin> set y"
  shows "last (x @ ''//'' @ y) \<noteq> CHR ''/''"
proof -
  have "last (x @ ''//'' @ y) = last y" using assms(1) by simp
  moreover have "last y \<in> set y" using assms(1) by (rule last_in_set)
  ultimately show ?thesis using assms(2) by auto
qed

lemma stripSlash_match:
  assumes "y \<noteq> []" "CHR ''/'' \<notin> set y"
  shows "stripSlash (x @ ''//'' @ y) = x @ ''//'' @ y"
    and "stripSlash (x @ ''//'' @ y @ ''/'') = x @ ''//'' @ y"
proof -
  show "stripSlash (x @ ''//'' @ y) = x @ ''//'' @ y"
    using last_of_match[OF assms, of x] by (simp add: stripSlash_def)
  have "butlast (x @ ''//'' @ y @ ''/'') = x @ ''//'' @ y"
    by (simp add: butlast_append)
  then show "stripSlash (x @ ''//'' @ y @ ''/'') = x @ ''//'' @ y"
    by (simp add: stripSlash_def)
qed

lemma patternWithoutPath_unique:
  assumes "g \<in> set (patternWithoutPath s)"
  shows "g = stripSlash s"
proof -
  from assms obtain x y where g: "g = x @ ''//'' @ y" and y: "y \<noteq> []" "CHR ''/'' \<notin> set y"
    and s: "s = g \<or> s = g @ ''/''"
    unfolding set_patternWithoutPath by blast
  from s show ?thesis
  proof
    assume "s = g" then show ?thesis using stripSlash_match(1)[OF y, of x] g by simp
  next
    assume "s = g @ ''/''" then show ?thesis using stripSlash_match(2)[OF y, of x] g by simp
  qed
qed

lemma patternWithoutPath_nonempty_iff:
  "patternWithoutPath s \<noteq> [] \<longleftrightarrow> completable s"
proof -
  have "patternWithoutPath s \<noteq> [] \<longleftrightarrow> (\<exists>g. g \<in> set (patternWithoutPath s))"
    by (cases "patternWithoutPath s") auto
  also have "\<dots> \<longleftrightarrow> completable s"
    unfolding set_patternWithoutPath completable_def by auto
  finally show ?thesis .
qed

lemma match1_eq:
  "match1 s = (if completable s then Some (stripSlash s) else None)"
proof (cases "patternWithoutPath s")
  case Nil
  then show ?thesis using patternWithoutPath_nonempty_iff[of s] by (simp add: match1_def)
next
  case (Cons g gs)
  then have "g = stripSlash s" using patternWithoutPath_unique[of g s] by simp
  then show ?thesis using Cons patternWithoutPath_nonempty_iff[of s] by (simp add: match1_def)
qed

lemma autoCompletePath_eq:
  "autoCompletePath p = (if completable p then stripSlash p @ ''/*'' else p)"
  by (simp add: autoCompletePath_def match1_eq)

lemma completed_not_completable:
  assumes "completable p"
  shows "\<not> completable (stripSlash p @ ''/*'')"
proof
  from assms obtain x y where y: "y \<noteq> []" "CHR ''/'' \<notin> set y"
    and p: "p = x @ ''//'' @ y \<or> p = x @ ''//'' @ y @ ''/''"
    unfolding completable_def by blast
  define g where "g = x @ ''//'' @ y"
  have sp: "stripSlash p = g" using p stripSlash_match[OF y, of x] by (auto simp: g_def)
  have lg: "last g \<noteq> CHR ''/''" "g \<noteq> []" using last_of_match[OF y, of x] by (auto simp: g_def)
  assume "completable (stripSlash p @ ''/*'')"
  then obtain x' y' where y': "y' \<noteq> []" "CHR ''/'' \<notin> set y'"
    and q: "g @ ''/*'' = x' @ ''//'' @ y' \<or> g @ ''/*'' = x' @ ''//'' @ y' @ ''/''"
    unfolding completable_def sp by blast
  from q show False
  proof
    assume eq: "g @ ''/*'' = x' @ ''//'' @ y'"
    from y'(1) obtain ys c where ys: "y' = ys @ [c]" by (cases y' rule: rev_cases) auto
    with eq have "(g @ ''/'') @ ''*'' = (x' @ ''//'' @ ys) @ [c]" by simp
    then have e2: "g @ ''/'' = x' @ ''//'' @ ys" by (simp only: append1_eq_conv)
    show False
    proof (cases ys rule: rev_cases)
      case Nil
      with e2 have "g @ ''/'' = (x' @ ''/'') @ ''/''" by simp
      then have "g = x' @ ''/''" by (simp only: append1_eq_conv)
      with lg show False by simp
    next
      case (snoc zs d)
      with e2 have "g @ ''/'' = (x' @ ''//'' @ zs) @ [d]" by simp
      then have "d = CHR ''/''" by (simp only: append1_eq_conv)
      with snoc ys y'(2) show False by simp
    qed
  next
    assume "g @ ''/*'' = x' @ ''//'' @ y' @ ''/''"
    then have "last (g @ ''/*'') = last (x' @ ''//'' @ y' @ ''/'')" by (rule arg_cong)
    then show False by simp
  qed
qed

lemma autoCompletePath_idem: "autoCompletePath (autoCompletePath p) = autoCompletePath p"
proof (cases "completable p")
  case True
  then show ?thesis using completed_not_completable[OF True] by (simp add: autoCompletePath_eq)
next
  case False
  then show ?thesis by (simp add: autoCompletePath_eq)
qed

lemma stripSlash_cases: "p = stripSlash p \<or> p = stripSlash p @ ''/''"
proof (cases "p \<noteq> [] \<and> last p = CHR ''/''")
  case True
  then have ne: "p \<noteq> []" and l: "last p = CHR ''/''" by simp_all
  from ne have "butlast p @ [last p] = p" by (rule append_butlast_last_id)
  then have "butlast p @ ''/'' = p" unfolding l .
  with True show ?thesis by (simp add: stripSlash_def)
next
  case False
  then show ?thesis by (auto simp add: stripSlash_def)
qed

lemma spec_scheme_and_host_only_completable:
  assumes "spec_scheme_and_host_only p"
    and "\<forall>c\<in>set (takeWhile (\<lambda>c. c \<noteq> CHR ''/'') p). \<not> isLineTerminator c"
  shows "completable p"
proof -
  define q where "q = stripSlash p"
  define scheme where "scheme = takeWhile (\<lambda>c. c \<noteq> CHR ''/'') q"
  define rest where "rest = dropWhile (\<lambda>c. c \<noteq> CHR ''/'') q"
  define host where "host = drop 2 rest"
  from assms(1) have f: "scheme \<noteq> []" "take 2 rest = ''//''" "host \<noteq> []" "CHR ''/'' \<notin> set host"
    by (simp_all add: spec_scheme_and_host_only_def Let_def q_def scheme_def rest_def host_def)
  have "q = scheme @ rest" by (simp add: scheme_def rest_def)
  moreover have "rest = take 2 rest @ drop 2 rest" by simp
  ultimately have q: "q = scheme @ ''//'' @ host" using f(2) by (simp add: host_def)
  have "scheme = takeWhile (\<lambda>c. c \<noteq> CHR ''/'') p"
  proof -
    from stripSlash_cases[of p] have "p = q \<or> p = q @ ''/''" by (simp add: q_def)
    then show ?thesis
    proof
      assume "p = q" then show ?thesis by (simp add: scheme_def)
    next
      assume "p = q @ ''/''"
      then have "p = scheme @ CHR ''/'' # (CHR ''/'' # host @ ''/'')" using q by simp
      moreover have "\<forall>c\<in>set scheme. c \<noteq> CHR ''/''"
        unfolding scheme_def by (auto dest: set_takeWhileD)
      ultimately show ?thesis by (simp add: takeWhile_tail)
    qed
  qed
  then have lt: "\<forall>c\<in>set scheme. \<not> isLineTerminator c" using assms(2) by simp
  from stripSlash_cases[of p] have "p = scheme @ ''//'' @ host \<or> p = scheme @ ''//'' @ host @ ''/''"
    using q by (auto simp: q_def)
  with f lt show ?thesis unfolding completable_def by blast
qed

section \<open>Rule keys\<close>

text \<open>
  C2, as the specification states it: the key of a rule whose secondary pattern is absent
  ends in the separator followed by the empty string. The code yields the separator
  followed by \<^verbatim>\<open>undefined\<close>.
\<close>

theorem keyForEntry_absent_secondary_not_empty:
  "keyForEntry \<lparr>primaryPattern = ''a.com/*'', secondaryPattern = None, setting = Block\<rparr>
     = ''a.com/*;undefined''
   \<and> keyForEntry \<lparr>primaryPattern = ''a.com/*'', secondaryPattern = None, setting = Block\<rparr>
     \<noteq> ''a.com/*'' @ '';'' @ ''''"
  by (simp add: keyForEntry_def templateString_def)

text \<open>
  C2, amended: the key of a rule is its primary pattern, then the separator \<^verbatim>\<open>;\<close>, then
  the secondary pattern when it is present and the text \<^verbatim>\<open>undefined\<close> when it is absent;
  two rules with equal primary patterns and equal (or both absent) secondary patterns
  have equal keys, whatever their settings.
\<close>

theorem keyForEntry_shape_and_determinism:
  "keyForEntry r =
     primaryPattern r @ '';'' @ (case secondaryPattern r of Some s \<Rightarrow> s | None \<Rightarrow> ''undefined'')
   \<and> (primaryPattern r1 = primaryPattern r2 \<and> secondaryPattern r1 = secondaryPattern r2
        \<longrightarrow> keyForEntry r1 = keyForEntry r2)"
  by (simp add: keyForEntry_def templateString_def)

theorem keyForEntry_shape_and_determinism_witness:
  "primaryPattern \<lparr>primaryPattern = ''a.com/*'', secondaryPattern = None, setting = Block\<rparr>
     = primaryPattern \<lparr>primaryPattern = ''a.com/*'', secondaryPattern = None, setting = Allow\<rparr>
   \<and> secondaryPattern \<lparr>primaryPattern = ''a.com/*'', secondaryPattern = None, setting = Block\<rparr>
     = secondaryPattern \<lparr>primaryPattern = ''a.com/*'', secondaryPattern = None, setting = Allow\<rparr>
   \<and> keyForEntry \<lparr>primaryPattern = ''a.com/*'', secondaryPattern = None, setting = Block\<rparr>
     = keyForEntry \<lparr>primaryPattern = ''a.com/*'', secondaryPattern = None, setting = Allow\<rparr>
   \<and> keyForEntry \<lparr>primaryPattern = ''a.com/*'', secondaryPattern = Some ''b.org/*'', setting = Block\<rparr>
     = ''a.com/*;b.org/*''"
  using keyForEntry_shape_and_determinism
    [of "\<lparr>primaryPattern = ''a.com/*'', secondaryPattern = Some ''b.org/*'', setting = Block\<rparr>"
        "\<lparr>primaryPattern = ''a.com/*'', secondaryPattern = None, setting = Block\<rparr>"
        "\<lparr>primaryPattern = ''a.com/*'', secondaryPattern = None, setting = Allow\<rparr>"]
  by simp

section \<open>Removing a rule\<close>

lemma removeEntry_result:
  "fst (removeEntry env entry w) =
     (case outcome env (nextCall w) of
        Some err \<Rightarrow> Inl err
      | None \<Rightarrow>
          (case outcome env (nextCall w
                  + Suc (length (AList.delete (keyForEntry entry) (currentSettings w)))) of
             Some err \<Rightarrow> Inl err
           | None \<Rightarrow> Inr ()))"
  by (cases "outcome env (nextCall w)")
     (simp_all add: removeEntry_cleared removeEntry_failed_clear Let_def)

lemma remaining_after_A:
  "AList.delete (keyForEntry entryA) (currentSettings browserABC)
     = [(keyForEntry entryB, entryB), (keyForEntry entryC, entryC)]"
  by (simp add: browserABC_def settingsABC_def keyForEntry_def templateString_def
        entryA_def entryB_def entryC_def)

lemma removeEntry_failed_clear_store:
  assumes "outcome env (nextCall w) = Some err"
  shows "persistCalls (trace (snd (removeEntry env entry w))) = persistCalls (trace w)"
    and "syncStore (snd (removeEntry env entry w)) = syncStore w"
    and "fst (removeEntry env entry w) = Inl err"
proof -
  have eng: "engineCall CookiesClear" by (simp add: engineCall_def)
  show "persistCalls (trace (snd (removeEntry env entry w))) = persistCalls (trace w)"
    using assms by (simp add: persistCalls_of_calls removeEntry_calls)
  show "syncStore (snd (removeEntry env entry w)) = syncStore w"
    using await_engine_store[OF eng, of env w] by (simp add: removeEntry_failed_clear[OF assms])
  show "fst (removeEntry env entry w) = Inl err"
    by (simp add: removeEntry_failed_clear[OF assms])
qed

lemma removeEntry_trace_failed_clear:
  assumes "outcome env (nextCall w) = Some err"
  shows "trace (snd (removeEntry env entry w))
           = trace w @ [Issued (nextCall w) CookiesClear, Settled (nextCall w) (Some err),
                        StatusUpdate (rendered (Some err))]"
  using assms by (simp add: removeEntry_failed_clear)

lemma removeEntry_trace_cleared:
  assumes "outcome env (nextCall w) = None"
  shows "\<exists>replayed.
     trace (snd (removeEntry env entry w))
       = trace w
         @ [Issued (nextCall w) CookiesClear, Settled (nextCall w) None, StatusUpdate []]
         @ map (\<lambda>(i, c). Issued i c)
               (zip [Suc (nextCall w) ..<
                       Suc (nextCall w) + length (AList.delete (keyForEntry entry) (currentSettings w))]
                    (map CookiesSet (map snd (AList.delete (keyForEntry entry) (currentSettings w)))))
         @ replayed
         @ [Issued (Suc (nextCall w) + length (AList.delete (keyForEntry entry) (currentSettings w)))
              (SyncSet (AList.delete (keyForEntry entry) (currentSettings w))),
            Settled (Suc (nextCall w) + length (AList.delete (keyForEntry entry) (currentSettings w)))
              (outcome env (Suc (nextCall w)
                 + length (AList.delete (keyForEntry entry) (currentSettings w)))),
            StatusUpdate (rendered (outcome env (Suc (nextCall w)
                 + length (AList.delete (keyForEntry entry) (currentSettings w)))))]
     \<and> calls replayed = []
     \<and> length replayed = 2 * length (AList.delete (keyForEntry entry) (currentSettings w))
     \<and> length (settledIds replayed) = length (AList.delete (keyForEntry entry) (currentSettings w))
     \<and> set (settledIds replayed)
         = {Suc (nextCall w) ..<
              Suc (nextCall w) + length (AList.delete (keyForEntry entry) (currentSettings w))}"
proof -
  define remaining where "remaining = AList.delete (keyForEntry entry) (currentSettings w)"
  define cs where "cs = map CookiesSet (map snd remaining)"
  define w1 where "w1 = snd (await env CookiesClear w)"
  have n1: "nextCall w1 = Suc (nextCall w)" by (simp add: w1_def)
  have lcs: "length cs = length remaining" by (simp add: cs_def)
  have t1: "trace w1 = trace w @ [Issued (nextCall w) CookiesClear, Settled (nextCall w) None,
                                  StatusUpdate []]"
    using assms by (simp add: w1_def rendered_def)
  from allSettled_trace[of env cs w1] obtain t where
    t: "trace (allSettled env cs w1)
          = trace w1 @ map (\<lambda>(i, c). Issued i c) (zip [nextCall w1 ..< nextCall w1 + length cs] cs) @ t"
       "calls t = []" "length t = 2 * length cs" "length (settledIds t) = length cs"
       "set (settledIds t) = {nextCall w1 ..< nextCall w1 + length cs}"
    by blast
  have "trace (snd (removeEntry env entry w))
          = trace (allSettled env cs w1)
            @ [Issued (Suc (nextCall w) + length remaining) (SyncSet remaining),
               Settled (Suc (nextCall w) + length remaining)
                 (outcome env (Suc (nextCall w) + length remaining)),
               StatusUpdate (rendered (outcome env (Suc (nextCall w) + length remaining)))]"
    using assms
    by (simp add: removeEntry_cleared Let_def remaining_def cs_def w1_def)
  then have "trace (snd (removeEntry env entry w))
       = trace w
         @ [Issued (nextCall w) CookiesClear, Settled (nextCall w) None, StatusUpdate []]
         @ map (\<lambda>(i, c). Issued i c)
               (zip [Suc (nextCall w) ..< Suc (nextCall w) + length remaining] cs)
         @ t
         @ [Issued (Suc (nextCall w) + length remaining) (SyncSet remaining),
            Settled (Suc (nextCall w) + length remaining)
              (outcome env (Suc (nextCall w) + length remaining)),
            StatusUpdate (rendered (outcome env (Suc (nextCall w) + length remaining)))]"
    by (simp add: t(1) t1 n1 lcs)
  moreover have "calls t = []" "length t = 2 * length remaining"
    "length (settledIds t) = length remaining"
    "set (settledIds t) = {Suc (nextCall w) ..< Suc (nextCall w) + length remaining}"
    using t by (simp_all add: n1 lcs)
  ultimately show ?thesis unfolding remaining_def cs_def by blast
qed

text \<open>
  C1, as the specification states it: for every rule set \<open>S\<close> and entry \<open>e\<close>,
  \<open>removeEntry e\<close> persists \<open>S\<close> without the entry under \<open>e\<close>'s key. When the clear
  call fails, the \<^verbatim>\<open>await\<close> throws before anything is replayed or persisted: nothing is
  handed to the store, which still holds \<open>A\<close>, \<open>B\<close>, \<open>C\<close>.
\<close>

theorem removeEntry_persists_nothing_after_failed_clear:
  "persistCalls (trace (snd (removeEntry firstCallFails entryA browserABC))) = []
   \<and> syncStore (snd (removeEntry firstCallFails entryA browserABC)) = Some settingsABC
   \<and> Some settingsABC \<noteq> Some [(keyForEntry entryB, entryB), (keyForEntry entryC, entryC)]"
proof -
  have failed: "outcome firstCallFails (nextCall browserABC) = Some invalidPattern"
    by (simp add: firstCallFails_def browserABC_def)
  have eng: "engineCall CookiesClear" by (simp add: engineCall_def)
  have "persistCalls (trace (snd (removeEntry firstCallFails entryA browserABC))) = []"
    using failed
    by (simp add: persistCalls_of_calls removeEntry_calls browserABC_def)
  moreover have "syncStore (snd (removeEntry firstCallFails entryA browserABC)) = Some settingsABC"
  proof -
    have "removeEntry firstCallFails entryA browserABC
            = (Inl invalidPattern, snd (await firstCallFails CookiesClear browserABC))"
      using failed by (rule removeEntry_failed_clear)
    moreover have "syncStore (snd (await firstCallFails CookiesClear browserABC))
                     = syncStore browserABC"
      using await_engine_store[OF eng, of firstCallFails browserABC] by simp
    moreover have "syncStore browserABC = Some settingsABC" by (simp add: browserABC_def)
    ultimately show ?thesis by simp
  qed
  moreover have "Some settingsABC \<noteq> Some [(keyForEntry entryB, entryB), (keyForEntry entryC, entryC)]"
    by (simp add: settingsABC_def)
  ultimately show ?thesis by simp
qed

text \<open>
  C1, amended: for every rule set \<open>S\<close> held by the page and every entry \<open>e\<close>, when the
  clear call of \<open>removeEntry e\<close> succeeds, the page hands exactly \<open>S\<close> without the entry
  under \<open>e\<close>'s key to \<^verbatim>\<open>chrome.storage.sync.set\<close>, whatever the environment decides for
  the replayed set-calls (which of them fail, and in which order they complete), and when
  the store accepts that call, the stored rule set is that set. Every entry under
  another key is in the persisted set, so an entry whose replay failed is retained. When
  the clear call fails, \<open>removeEntry\<close> ends with its error, hands nothing to the store and
  leaves the stored rule set as it was.
\<close>

theorem removeEntry_persists_remaining_whatever_replays_fail:
  "(outcome env (nextCall w) = None \<longrightarrow>
      persistCalls (trace (snd (removeEntry env entry w)))
        = persistCalls (trace w) @ [AList.delete (keyForEntry entry) (currentSettings w)]
      \<and> (outcome env (nextCall w
              + Suc (length (AList.delete (keyForEntry entry) (currentSettings w)))) = None
           \<longrightarrow> fst (removeEntry env entry w) = Inr ()
             \<and> syncStore (snd (removeEntry env entry w))
                 = Some (AList.delete (keyForEntry entry) (currentSettings w))))
   \<and> map_of (AList.delete (keyForEntry entry) (currentSettings w))
       = (map_of (currentSettings w))(keyForEntry entry := None)
   \<and> (\<forall>k r. (k, r) \<in> set (currentSettings w) \<and> k \<noteq> keyForEntry entry
         \<longrightarrow> (k, r) \<in> set (AList.delete (keyForEntry entry) (currentSettings w)))
   \<and> (outcome env (nextCall w) = Some err \<longrightarrow>
        fst (removeEntry env entry w) = Inl err
        \<and> persistCalls (trace (snd (removeEntry env entry w))) = persistCalls (trace w)
        \<and> syncStore (snd (removeEntry env entry w)) = syncStore w)"
proof (intro conjI allI impI)
  assume c: "outcome env (nextCall w) = None"
  then show "persistCalls (trace (snd (removeEntry env entry w)))
          = persistCalls (trace w) @ [AList.delete (keyForEntry entry) (currentSettings w)]"
    by (simp add: persistCalls_of_calls removeEntry_calls engine_calls_persist_nothing)
  assume p: "outcome env (nextCall w
            + Suc (length (AList.delete (keyForEntry entry) (currentSettings w)))) = None"
  show "fst (removeEntry env entry w) = Inr ()"
    by (rule removeEntry_store(2)[OF c p])
  show "syncStore (snd (removeEntry env entry w))
               = Some (AList.delete (keyForEntry entry) (currentSettings w))"
    by (rule removeEntry_store(1)[OF c p])
next
  show "map_of (AList.delete (keyForEntry entry) (currentSettings w))
          = (map_of (currentSettings w))(keyForEntry entry := None)"
    by (rule AList.delete_conv')
next
  fix k r
  assume "(k, r) \<in> set (currentSettings w) \<and> k \<noteq> keyForEntry entry"
  then show "(k, r) \<in> set (AList.delete (keyForEntry entry) (currentSettings w))"
    by (simp add: AList_delete_retains)
next
  assume f: "outcome env (nextCall w) = Some err"
  show "fst (removeEntry env entry w) = Inl err"
    by (rule removeEntry_failed_clear_store(3)[OF f])
  show "persistCalls (trace (snd (removeEntry env entry w))) = persistCalls (trace w)"
    by (rule removeEntry_failed_clear_store(1)[OF f])
  show "syncStore (snd (removeEntry env entry w)) = syncStore w"
    by (rule removeEntry_failed_clear_store(2)[OF f])
qed

text \<open>
  The scenario of the specification: the page holds \<open>A\<close>, \<open>B\<close>, \<open>C\<close>; during
  \<open>removeEntry A\<close> the replay of \<open>B\<close> fails; the persisted set is \<open>B\<close>, \<open>C\<close>. And the
  run in which the clear call fails.
\<close>

theorem removeEntry_persists_remaining_witness:
  "outcome secondCallFails (nextCall browserABC) = None
   \<and> outcome secondCallFails 1 = Some invalidPattern
   \<and> persistCalls (trace (snd (removeEntry secondCallFails entryA browserABC)))
       = [[(keyForEntry entryB, entryB), (keyForEntry entryC, entryC)]]
   \<and> fst (removeEntry secondCallFails entryA browserABC) = Inr ()
   \<and> syncStore (snd (removeEntry secondCallFails entryA browserABC))
       = Some [(keyForEntry entryB, entryB), (keyForEntry entryC, entryC)]
   \<and> outcome firstCallFails (nextCall browserABC) = Some invalidPattern
   \<and> fst (removeEntry firstCallFails entryA browserABC) = Inl invalidPattern"
proof -
  have cleared: "outcome secondCallFails (nextCall browserABC) = None"
    by (simp add: secondCallFails_def browserABC_def)
  have replayOfB: "outcome secondCallFails 1 = Some invalidPattern"
    by (simp add: secondCallFails_def)
  have persisted: "outcome secondCallFails (nextCall browserABC
      + Suc (length [(keyForEntry entryB, entryB), (keyForEntry entryC, entryC)])) = None"
    by (simp add: secondCallFails_def browserABC_def)
  have failed: "outcome firstCallFails (nextCall browserABC) = Some invalidPattern"
    by (simp add: firstCallFails_def browserABC_def)
  have start: "persistCalls (trace browserABC) = []"
    by (simp add: browserABC_def persistCalls_def calls_def)
  note main = removeEntry_persists_remaining_whatever_replays_fail
                [of secondCallFails browserABC entryA, unfolded remaining_after_A]
  note bad = removeEntry_persists_remaining_whatever_replays_fail
                [of firstCallFails browserABC entryA invalidPattern]
  from main cleared persisted start have
    "persistCalls (trace (snd (removeEntry secondCallFails entryA browserABC)))
       = [[(keyForEntry entryB, entryB), (keyForEntry entryC, entryC)]]"
    "fst (removeEntry secondCallFails entryA browserABC) = Inr ()"
    "syncStore (snd (removeEntry secondCallFails entryA browserABC))
       = Some [(keyForEntry entryB, entryB), (keyForEntry entryC, entryC)]"
    by simp_all
  moreover from bad failed have "fst (removeEntry firstCallFails entryA browserABC) = Inl invalidPattern"
    by simp
  ultimately show ?thesis using cleared replayOfB failed by simp
qed

text \<open>
  C4, as the specification states it: in every execution of \<open>removeEntry\<close> the external
  calls are one clear, then the replayed set-calls, then the persist. When the clear call
  fails, the \<^verbatim>\<open>await\<close> throws and \<open>removeEntry\<close> ends: the clear is its only call.
\<close>

theorem removeEntry_stops_after_failed_clear:
  "calls (trace (snd (removeEntry firstCallFails entryA browserABC))) = [CookiesClear]
   \<and> calls (trace (snd (removeEntry firstCallFails entryA browserABC)))
       \<noteq> CookiesClear # map CookiesSet [entryB, entryC]
            @ [SyncSet [(keyForEntry entryB, entryB), (keyForEntry entryC, entryC)]]
   \<and> fst (removeEntry firstCallFails entryA browserABC) = Inl invalidPattern"
  by (simp add: removeEntry_calls removeEntry_result firstCallFails_def browserABC_def)

text \<open>
  C4, amended: in every execution of \<open>removeEntry\<close> the external calls occur strictly in
  this order. First exactly one clear call is issued and completes. If it fails,
  \<open>removeEntry\<close> ends with its error and nothing else happens. If it succeeds, the
  set-calls for the remaining entries are issued, one per entry in order; then each of
  them completes exactly once, in the order the environment picks and with no call issued
  meanwhile; only then is the persist of the remaining set issued, and it completes last.
  This holds whatever happens to the set-calls, and the result of \<open>removeEntry\<close>
  depends on the clear call and the persist call only.
\<close>

theorem removeEntry_call_order:
  "calls (trace (snd (removeEntry env entry w))) =
     calls (trace w) @ CookiesClear #
       (if outcome env (nextCall w) = None
        then map CookiesSet (map snd (AList.delete (keyForEntry entry) (currentSettings w)))
               @ [SyncSet (AList.delete (keyForEntry entry) (currentSettings w))]
        else [])
   \<and> fst (removeEntry env entry w) =
       (case outcome env (nextCall w) of
          Some err \<Rightarrow> Inl err
        | None \<Rightarrow>
            (case outcome env (nextCall w
                    + Suc (length (AList.delete (keyForEntry entry) (currentSettings w)))) of
               Some err \<Rightarrow> Inl err
             | None \<Rightarrow> Inr ()))
   \<and> (outcome env (nextCall w) = Some err \<longrightarrow>
        trace (snd (removeEntry env entry w))
          = trace w @ [Issued (nextCall w) CookiesClear, Settled (nextCall w) (Some err),
                       StatusUpdate (rendered (Some err))])
   \<and> (outcome env (nextCall w) = None \<longrightarrow>
        (\<exists>replayed.
           trace (snd (removeEntry env entry w))
             = trace w
               @ [Issued (nextCall w) CookiesClear, Settled (nextCall w) None, StatusUpdate []]
               @ map (\<lambda>(i, c). Issued i c)
                   (zip [Suc (nextCall w) ..<
                           Suc (nextCall w)
                             + length (AList.delete (keyForEntry entry) (currentSettings w))]
                        (map CookiesSet
                           (map snd (AList.delete (keyForEntry entry) (currentSettings w)))))
               @ replayed
               @ [Issued (Suc (nextCall w)
                            + length (AList.delete (keyForEntry entry) (currentSettings w)))
                    (SyncSet (AList.delete (keyForEntry entry) (currentSettings w))),
                  Settled (Suc (nextCall w)
                             + length (AList.delete (keyForEntry entry) (currentSettings w)))
                    (outcome env (Suc (nextCall w)
                       + length (AList.delete (keyForEntry entry) (currentSettings w)))),
                  StatusUpdate (rendered (outcome env (Suc (nextCall w)
                       + length (AList.delete (keyForEntry entry) (currentSettings w)))))]
           \<and> calls replayed = []
           \<and> length replayed
               = 2 * length (AList.delete (keyForEntry entry) (currentSettings w))
           \<and> length (settledIds replayed)
               = length (AList.delete (keyForEntry entry) (currentSettings w))
           \<and> set (settledIds replayed)
               = {Suc (nextCall w) ..<
                    Suc (nextCall w)
                      + length (AList.delete (keyForEntry entry) (currentSettings w))}))"
proof (intro conjI impI)
  show "calls (trace (snd (removeEntry env entry w))) =
     calls (trace w) @ CookiesClear #
       (if outcome env (nextCall w) = None
        then map CookiesSet (map snd (AList.delete (keyForEntry entry) (currentSettings w)))
               @ [SyncSet (AList.delete (keyForEntry entry) (currentSettings w))]
        else [])"
    by (rule removeEntry_calls)
next
  show "fst (removeEntry env entry w) =
       (case outcome env (nextCall w) of
          Some err \<Rightarrow> Inl err
        | None \<Rightarrow>
            (case outcome env (nextCall w
                    + Suc (length (AList.delete (keyForEntry entry) (currentSettings w)))) of
               Some err \<Rightarrow> Inl err
             | None \<Rightarrow> Inr ()))"
    by (rule removeEntry_result)
next
  assume "outcome env (nextCall w) = Some err"
  then show "trace (snd (removeEntry env entry w))
          = trace w @ [Issued (nextCall w) CookiesClear, Settled (nextCall w) (Some err),
                       StatusUpdate (rendered (Some err))]"
    by (rule removeEntry_trace_failed_clear)
next
  assume "outcome env (nextCall w) = None"
  then show "\<exists>replayed.
           trace (snd (removeEntry env entry w))
             = trace w
               @ [Issued (nextCall w) CookiesClear, Settled (nextCall w) None, StatusUpdate []]
               @ map (\<lambda>(i, c). Issued i c)
                   (zip [Suc (nextCall w) ..<
                           Suc (nextCall w)
                             + length (AList.delete (keyForEntry entry) (currentSettings w))]
                        (map CookiesSet
                           (map snd (AList.delete (keyForEntry entry) (currentSettings w)))))
               @ replayed
               @ [Issued (Suc (nextCall w)
                            + length (AList.delete (keyForEntry entry) (currentSettings w)))
                    (SyncSet (AList.delete (keyForEntry entry) (currentSettings w))),
                  Settled (Suc (nextCall w)
                             + length (AList.delete (keyForEntry entry) (currentSettings w)))
                    (outcome env (Suc (nextCall w)
                       + length (AList.delete (keyForEntry entry) (currentSettings w)))),
                  StatusUpdate (rendered (outcome env (Suc (nextCall w)
                       + length (AList.delete (keyForEntry entry) (currentSettings w)))))]
           \<and> calls replayed = []
           \<and> length replayed
               = 2 * length (AList.delete (keyForEntry entry) (currentSettings w))
           \<and> length (settledIds replayed)
               = length (AList.delete (keyForEntry entry) (currentSettings w))
           \<and> set (settledIds replayed)
               = {Suc (nextCall w) ..<
                    Suc (nextCall w)
                      + length (AList.delete (keyForEntry entry) (currentSettings w))}"
    by (rule removeEntry_trace_cleared)
qed

text \<open>
  The scenario where the replay of \<open>B\<close> fails: the first five and the last three
  events of the trace, with the four events of the two completions in between; and the
  run in which the clear call fails.
\<close>

theorem removeEntry_call_order_witness:
  "outcome secondCallFails (nextCall browserABC) = None
   \<and> calls (trace (snd (removeEntry secondCallFails entryA browserABC)))
       = [CookiesClear, CookiesSet entryB, CookiesSet entryC,
          SyncSet [(keyForEntry entryB, entryB), (keyForEntry entryC, entryC)]]
   \<and> fst (removeEntry secondCallFails entryA browserABC) = Inr ()
   \<and> take 5 (trace (snd (removeEntry secondCallFails entryA browserABC)))
       = [Issued 0 CookiesClear, Settled 0 None, StatusUpdate [],
          Issued 1 (CookiesSet entryB), Issued 2 (CookiesSet entryC)]
   \<and> drop 9 (trace (snd (removeEntry secondCallFails entryA browserABC)))
       = [Issued 3 (SyncSet [(keyForEntry entryB, entryB), (keyForEntry entryC, entryC)]),
          Settled 3 None, StatusUpdate []]
   \<and> outcome firstCallFails (nextCall browserABC) = Some invalidPattern
   \<and> trace (snd (removeEntry firstCallFails entryA browserABC))
       = [Issued 0 CookiesClear, Settled 0 (Some invalidPattern), StatusUpdate ''Invalid pattern'']"
proof -
  have cleared: "outcome secondCallFails (nextCall browserABC) = None"
    by (simp add: secondCallFails_def browserABC_def)
  have persisted: "outcome secondCallFails (nextCall browserABC
      + Suc (length [(keyForEntry entryB, entryB), (keyForEntry entryC, entryC)])) = None"
    "outcome secondCallFails (Suc (Suc (Suc 0))) = None"
    by (simp_all add: secondCallFails_def browserABC_def)
  have failed: "outcome firstCallFails (nextCall browserABC) = Some invalidPattern"
    by (simp add: firstCallFails_def browserABC_def)
  have start: "calls (trace browserABC) = []" "trace browserABC = []" "nextCall browserABC = 0"
    by (simp_all add: browserABC_def)
  note main = removeEntry_call_order
                [of secondCallFails entryA browserABC, unfolded remaining_after_A]
  note bad = removeEntry_call_order[of firstCallFails entryA browserABC invalidPattern]
  from main cleared obtain replayed where
    r: "trace (snd (removeEntry secondCallFails entryA browserABC))
          = trace browserABC
            @ [Issued (nextCall browserABC) CookiesClear, Settled (nextCall browserABC) None,
               StatusUpdate []]
            @ map (\<lambda>(i, c). Issued i c)
                (zip [Suc (nextCall browserABC) ..<
                        Suc (nextCall browserABC)
                          + length [(keyForEntry entryB, entryB), (keyForEntry entryC, entryC)]]
                     (map CookiesSet
                        (map snd [(keyForEntry entryB, entryB), (keyForEntry entryC, entryC)])))
            @ replayed
            @ [Issued (Suc (nextCall browserABC)
                         + length [(keyForEntry entryB, entryB), (keyForEntry entryC, entryC)])
                 (SyncSet [(keyForEntry entryB, entryB), (keyForEntry entryC, entryC)]),
               Settled (Suc (nextCall browserABC)
                          + length [(keyForEntry entryB, entryB), (keyForEntry entryC, entryC)])
                 (outcome secondCallFails (Suc (nextCall browserABC)
                    + length [(keyForEntry entryB, entryB), (keyForEntry entryC, entryC)])),
               StatusUpdate (rendered (outcome secondCallFails (Suc (nextCall browserABC)
                    + length [(keyForEntry entryB, entryB), (keyForEntry entryC, entryC)])))]"
       "length replayed = 2 * length [(keyForEntry entryB, entryB), (keyForEntry entryC, entryC)]"
    by blast
  have upt: "[Suc 0 ..< 3] = [1, 2]" by (simp add: upt_rec)
  have tr: "trace (snd (removeEntry secondCallFails entryA browserABC))
          = [Issued 0 CookiesClear, Settled 0 None, StatusUpdate [],
             Issued 1 (CookiesSet entryB), Issued 2 (CookiesSet entryC)]
            @ replayed
            @ [Issued 3 (SyncSet [(keyForEntry entryB, entryB), (keyForEntry entryC, entryC)]),
               Settled 3 None, StatusUpdate []]"
    using r(1) persisted(2) by (simp add: start upt rendered_def)
  have len: "length replayed = 4" using r(2) by simp
  have t5: "take 5 (trace (snd (removeEntry secondCallFails entryA browserABC)))
       = [Issued 0 CookiesClear, Settled 0 None, StatusUpdate [],
          Issued 1 (CookiesSet entryB), Issued 2 (CookiesSet entryC)]"
    unfolding tr by simp
  have d9: "drop 9 (trace (snd (removeEntry secondCallFails entryA browserABC)))
       = [Issued 3 (SyncSet [(keyForEntry entryB, entryB), (keyForEntry entryC, entryC)]),
          Settled 3 None, StatusUpdate []]"
    unfolding tr using len by simp
  from bad failed have
    "trace (snd (removeEntry firstCallFails entryA browserABC))
       = [Issued 0 CookiesClear, Settled 0 (Some invalidPattern), StatusUpdate ''Invalid pattern'']"
    by (simp add: start rendered_def invalidPattern_def)
  moreover from main cleared persisted start have
    "calls (trace (snd (removeEntry secondCallFails entryA browserABC)))
       = [CookiesClear, CookiesSet entryB, CookiesSet entryC,
          SyncSet [(keyForEntry entryB, entryB), (keyForEntry entryC, entryC)]]"
    "fst (removeEntry secondCallFails entryA browserABC) = Inr ()"
    by simp_all
  ultimately show ?thesis using cleared failed t5 d9 by simp
qed

section \<open>Setting all rules\<close>

text \<open>
  C3, as the specification states it: the handler returns only once all its calls have
  settled. The handler is not asynchronous and awaits nothing: on a page with three rules
  it returns with three calls outstanding and none completed.
\<close>

theorem clickSetAll_returns_with_calls_outstanding:
  "pending (clickSetAll browserABC)
     = [(0, CookiesSet entryA), (1, CookiesSet entryB), (2, CookiesSet entryC)]
   \<and> settlements (trace (clickSetAll browserABC)) = 0"
  by (simp add: clickSetAll_def browserABC_def settingsABC_def api_def)

text \<open>
  C3, amended: for a page that holds \<open>N\<close> rules the handler issues exactly \<open>N\<close> set-calls,
  one per entry in order, and returns at once with all of them outstanding; it changes
  neither the rule set held by the page nor the stored one; and when the calls complete
  later, whichever of them fail and in whatever order, nothing but the status line and
  the trace changes: no further call is made and both rule sets stay as they were.
\<close>

theorem clickSetAll_issues_one_call_per_entry:
  "calls (trace (clickSetAll w))
     = calls (trace w) @ map CookiesSet (map snd (currentSettings w))
   \<and> length (calls (trace (clickSetAll w)))
     = length (calls (trace w)) + length (currentSettings w)
   \<and> currentSettings (clickSetAll w) = currentSettings w
   \<and> syncStore (clickSetAll w) = syncStore w
   \<and> settlements (trace (clickSetAll w)) = settlements (trace w)
   \<and> pending (clickSetAll w)
     = pending w @ zip [nextCall w ..< nextCall w + length (currentSettings w)]
                      (map CookiesSet (map snd (currentSettings w)))
   \<and> (\<forall>env. let outstanding = zip [nextCall w ..< nextCall w + length (currentSettings w)]
                                   (map CookiesSet (map snd (currentSettings w)));
                 w' = settleAll env outstanding (clickSetAll w)
             in currentSettings w' = currentSettings w
              \<and> syncStore w' = syncStore w
              \<and> calls (trace w') = calls (trace (clickSetAll w))
              \<and> settlements (trace w') = settlements (trace w) + length (currentSettings w))"
proof -
  let ?cs = "map CookiesSet (map snd (currentSettings w))"
  let ?out = "zip [nextCall w ..< nextCall w + length (currentSettings w)] ?cs"
  have out: "fst (issueAll ?cs w) = ?out" by (simp add: issueAll_fst)
  have eng: "\<forall>p\<in>set ?out. engineCall (snd p)"
    by (auto simp: engineCall_def dest!: set_zip_rightD)
  have len: "length ?out = length (currentSettings w)" by simp
  show ?thesis
    unfolding Let_def clickSetAll_eq
    using settleAll_frame[of _ ?out "snd (issueAll ?cs w)"]
          settleAll_store[OF eng, of _ "snd (issueAll ?cs w)"] out len
    by simp
qed

section \<open>Clearing all rules\<close>

lemma clickClearAll_failed_engine:
  assumes "outcome env (nextCall w) = Some err"
  shows "clickClearAll env True w = (Inl err, snd (await env CookiesClear w))"
  using assms by (simp add: clickClearAll_def split_beta)

lemma clickClearAll_cleared_engine:
  assumes "outcome env (nextCall w) = None"
  shows "clickClearAll env True w =
     (case outcome env (Suc (nextCall w)) of Some err \<Rightarrow> Inl err | None \<Rightarrow> Inr (),
      snd (await env SyncClear (snd (await env CookiesClear w))))"
  using assms by (simp add: clickClearAll_def split_beta split: option.splits)

lemma clickClearAll_calls:
  "calls (trace (snd (clickClearAll env True w))) =
     calls (trace w) @ CookiesClear # (if outcome env (nextCall w) = None then [SyncClear] else [])"
  by (cases "outcome env (nextCall w)")
     (simp_all add: clickClearAll_cleared_engine clickClearAll_failed_engine)


lemma clickClearAll_success:
  assumes "outcome env (nextCall w) = None" "outcome env (Suc (nextCall w)) = None"
  shows "fst (clickClearAll env True w) = Inr ()"
    and "syncStore (snd (clickClearAll env True w)) = None"
    and "changes (snd (clickClearAll env True w))
           = changes w @ (case syncStore w of None \<Rightarrow> []
                          | Some s \<Rightarrow> [\<lparr>oldValue = Some s, newValue = None\<rparr>])"
    and "currentSettings (snd (clickClearAll env True w)) = currentSettings w"
  using assms await_engine_store[of CookiesClear env w]
  by (simp_all add: clickClearAll_cleared_engine await_store chromeCompletes_store engineCall_def
        split: option.splits)

lemma dispatchChanges_simps [simp]:
  "syncStore (dispatchChanges w) = syncStore w"
  "changes (dispatchChanges w) = []"
  "nextCall (dispatchChanges w) = nextCall w"
  "trace (dispatchChanges w) = trace w"
proof -
  have "syncStore (fold (\<lambda>change. onChangedListener (Some change)) cs v) = syncStore v
        \<and> changes (fold (\<lambda>change. onChangedListener (Some change)) cs v) = changes v
        \<and> nextCall (fold (\<lambda>change. onChangedListener (Some change)) cs v) = nextCall v
        \<and> trace (fold (\<lambda>change. onChangedListener (Some change)) cs v) = trace v" for cs v
    by (induction cs arbitrary: v) (simp_all add: onChangedListener_def onSyncedSettings_def)
  then show "syncStore (dispatchChanges w) = syncStore w" "changes (dispatchChanges w) = []"
    "nextCall (dispatchChanges w) = nextCall w" "trace (dispatchChanges w) = trace w"
    by (simp_all add: dispatchChanges_def)
qed

lemma dispatchChanges_mirror:
  "currentSettings (dispatchChanges w) =
     (if changes w = [] then currentSettings w
      else case newValue (last (changes w)) of Some s \<Rightarrow> s | None \<Rightarrow> [])"
proof -
  have "currentSettings (fold (\<lambda>change. onChangedListener (Some change)) cs v) =
          (if cs = [] then currentSettings v
           else case newValue (last cs) of Some s \<Rightarrow> s | None \<Rightarrow> [])" for cs v
    by (induction cs arbitrary: v) (simp_all add: onChangedListener_def onSyncedSettings_def)
  then show ?thesis by (simp add: dispatchChanges_def)
qed

lemma clickClearAll_then_dispatch_mirror:
  assumes "outcome env (nextCall w) = None" "outcome env (Suc (nextCall w)) = None"
  shows "currentSettings (dispatchChanges (snd (clickClearAll env True w)))
           = (case syncStore w of Some s \<Rightarrow> [] | None \<Rightarrow> currentSettings (dispatchChanges w))"
  using clickClearAll_success(3,4)[OF assms]
  by (simp add: dispatchChanges_mirror split: option.splits)

text \<open>
  C5, as the specification states it: clearing all performs exactly two external calls.
  When the clear call to the rule engine fails, the handler ends there, after one call.
\<close>

theorem clickClearAll_one_call_when_engine_clear_fails:
  "calls (trace (snd (clickClearAll firstCallFails True browserABC))) = [CookiesClear]
   \<and> length (calls (trace (snd (clickClearAll firstCallFails True browserABC)))) \<noteq> 2
   \<and> fst (clickClearAll firstCallFails True browserABC) = Inl invalidPattern"
  by (simp add: clickClearAll_calls clickClearAll_failed_engine firstCallFails_def browserABC_def)

text \<open>
  C5, amended: once the user has confirmed, the handler clears the rule engine and, only
  if that call succeeded, clears the store: two calls in this order, or the first alone.
  With every call succeeding, doing it twice in a row leaves the stored rule set empty
  both times, and neither run fails. The page's own rule set, once the change events are
  delivered, is empty after the first run if the store held a rule set before it, and
  otherwise is what delivering the waiting change events gives; the second run leaves it
  as the first did; so it is empty both times when the page was in step with the store.
  If the store's clear fails, the handler ends with that error and the stored rule set,
  the pending change events and the page's rule set are as before. Whether a run fails
  depends on its two calls only, never on what the store held. When the user declines,
  nothing happens.
\<close>

theorem clickClearAll_sequence_and_idempotence:
  "calls (trace (snd (clickClearAll env True w))) =
     calls (trace w) @ CookiesClear # (if outcome env (nextCall w) = None then [SyncClear] else [])
   \<and> ((\<forall>i. outcome env i = None) \<longrightarrow>
        (let first = clickClearAll env True w;
             w1 = dispatchChanges (snd first);
             second = clickClearAll env True w1;
             w2 = dispatchChanges (snd second)
         in fst first = Inr () \<and> syncStore (snd first) = None \<and> syncStore w1 = None
          \<and> fst second = Inr () \<and> syncStore (snd second) = None \<and> syncStore w2 = None
          \<and> currentSettings w1
              = (case syncStore w of Some s \<Rightarrow> [] | None \<Rightarrow> currentSettings (dispatchChanges w))
          \<and> currentSettings w2 = currentSettings w1
          \<and> (inSync w \<longrightarrow> currentSettings w1 = [] \<and> currentSettings w2 = [])))
   \<and> (outcome env (nextCall w) = None \<and> outcome env (Suc (nextCall w)) = Some err \<longrightarrow>
        fst (clickClearAll env True w) = Inl err
        \<and> syncStore (snd (clickClearAll env True w)) = syncStore w
        \<and> changes (snd (clickClearAll env True w)) = changes w
        \<and> currentSettings (snd (clickClearAll env True w)) = currentSettings w)
   \<and> fst (clickClearAll env True w) =
       (case outcome env (nextCall w) of
          Some err \<Rightarrow> Inl err
        | None \<Rightarrow> (case outcome env (Suc (nextCall w)) of Some err \<Rightarrow> Inl err | None \<Rightarrow> Inr ()))
   \<and> clickClearAll env False w = (Inr (), w)"
proof (intro conjI impI)
  show "calls (trace (snd (clickClearAll env True w))) =
     calls (trace w) @ CookiesClear # (if outcome env (nextCall w) = None then [SyncClear] else [])"
    by (rule clickClearAll_calls)
next
  show "fst (clickClearAll env True w) =
       (case outcome env (nextCall w) of
          Some err \<Rightarrow> Inl err
        | None \<Rightarrow> (case outcome env (Suc (nextCall w)) of Some err \<Rightarrow> Inl err | None \<Rightarrow> Inr ()))"
    by (cases "outcome env (nextCall w)")
       (simp_all add: clickClearAll_cleared_engine clickClearAll_failed_engine)
next
  show "clickClearAll env False w = (Inr (), w)" by (simp add: clickClearAll_def)
next
  assume a: "\<forall>i. outcome env i = None"
  define w1 where "w1 = dispatchChanges (snd (clickClearAll env True w))"
  define w2 where "w2 = dispatchChanges (snd (clickClearAll env True w1))"
  have o: "outcome env (nextCall w) = None" "outcome env (Suc (nextCall w)) = None"
    "outcome env (nextCall w1) = None" "outcome env (Suc (nextCall w1)) = None"
    using a by simp_all
  have r1: "fst (clickClearAll env True w) = Inr ()" by (rule clickClearAll_success(1)[OF o(1,2)])
  have s1: "syncStore (snd (clickClearAll env True w)) = None"
    by (rule clickClearAll_success(2)[OF o(1,2)])
  then have s1': "syncStore w1 = None" by (simp add: w1_def)
  have c1: "changes w1 = []" by (simp add: w1_def)
  have r2: "fst (clickClearAll env True w1) = Inr ()" by (rule clickClearAll_success(1)[OF o(3,4)])
  have s2: "syncStore (snd (clickClearAll env True w1)) = None"
    by (rule clickClearAll_success(2)[OF o(3,4)])
  then have s2': "syncStore w2 = None" by (simp add: w2_def)
  have m1: "currentSettings w1
              = (case syncStore w of Some s \<Rightarrow> [] | None \<Rightarrow> currentSettings (dispatchChanges w))"
    unfolding w1_def by (rule clickClearAll_then_dispatch_mirror[OF o(1,2)])
  have "currentSettings w2
          = (case syncStore w1 of Some s \<Rightarrow> [] | None \<Rightarrow> currentSettings (dispatchChanges w1))"
    unfolding w2_def by (rule clickClearAll_then_dispatch_mirror[OF o(3,4)])
  then have m2: "currentSettings w2 = currentSettings w1"
    using s1' c1 by (simp add: dispatchChanges_mirror)
  have m3: "currentSettings w1 = []" if "inSync w"
    using that m1 by (auto simp: inSync_def dispatchChanges_mirror split: option.splits)
  from r1 s1 s1' r2 s2 s2' m1 m2 m3
  show "let first = clickClearAll env True w;
             w1 = dispatchChanges (snd first);
             second = clickClearAll env True w1;
             w2 = dispatchChanges (snd second)
         in fst first = Inr () \<and> syncStore (snd first) = None \<and> syncStore w1 = None
          \<and> fst second = Inr () \<and> syncStore (snd second) = None \<and> syncStore w2 = None
          \<and> currentSettings w1
              = (case syncStore w of Some s \<Rightarrow> [] | None \<Rightarrow> currentSettings (dispatchChanges w))
          \<and> currentSettings w2 = currentSettings w1
          \<and> (inSync w \<longrightarrow> currentSettings w1 = [] \<and> currentSettings w2 = [])"
    by (simp add: Let_def w1_def w2_def)
next
  assume a: "outcome env (nextCall w) = None \<and> outcome env (Suc (nextCall w)) = Some err"
  then show "fst (clickClearAll env True w) = Inl err"
    by (simp add: clickClearAll_cleared_engine)
  from a show "syncStore (snd (clickClearAll env True w)) = syncStore w"
    using await_engine_store[of CookiesClear env w]
    by (simp add: clickClearAll_cleared_engine await_store chromeCompletes_store engineCall_def)
  from a show "changes (snd (clickClearAll env True w)) = changes w"
    using await_engine_store[of CookiesClear env w]
    by (simp add: clickClearAll_cleared_engine await_store chromeCompletes_store engineCall_def)
  from a show "currentSettings (snd (clickClearAll env True w)) = currentSettings w"
    by (simp add: clickClearAll_cleared_engine)
qed

text \<open>
  On the page that holds \<open>A\<close>, \<open>B\<close>, \<open>C\<close>: every call succeeds; the second call, the
  store's clear, fails. And on a page out of step with an empty store, where the page's
  rule set stays.
\<close>

theorem clickClearAll_sequence_and_idempotence_witness:
  "(\<forall>i. outcome allSucceed i = None) \<and> inSync browserABC
   \<and> calls (trace (snd (clickClearAll allSucceed True browserABC))) = [CookiesClear, SyncClear]
   \<and> syncStore (dispatchChanges (snd (clickClearAll allSucceed True browserABC))) = None
   \<and> currentSettings (dispatchChanges (snd (clickClearAll allSucceed True browserABC))) = []
   \<and> fst (clickClearAll allSucceed True
            (dispatchChanges (snd (clickClearAll allSucceed True browserABC)))) = Inr ()
   \<and> syncStore (snd (clickClearAll allSucceed True
            (dispatchChanges (snd (clickClearAll allSucceed True browserABC))))) = None
   \<and> syncStore (snd (clickClearAll allSucceed True outOfStep)) = None
   \<and> currentSettings (dispatchChanges (snd (clickClearAll allSucceed True outOfStep)))
       = settingsABC
   \<and> outcome secondCallFails (nextCall browserABC) = None
   \<and> outcome secondCallFails (Suc (nextCall browserABC)) = Some invalidPattern
   \<and> fst (clickClearAll secondCallFails True browserABC) = Inl invalidPattern
   \<and> syncStore (snd (clickClearAll secondCallFails True browserABC)) = Some settingsABC
   \<and> currentSettings (snd (clickClearAll secondCallFails True browserABC)) = settingsABC"
proof -
  have ok: "\<forall>i. outcome allSucceed i = None" by (simp add: allSucceed_def)
  have sync: "inSync browserABC" by (simp add: inSync_def browserABC_def)
  have start: "calls (trace browserABC) = []" "nextCall browserABC = 0"
    "syncStore browserABC = Some settingsABC" "currentSettings browserABC = settingsABC"
    by (simp_all add: browserABC_def)
  have oos: "syncStore outOfStep = None"
    "currentSettings (dispatchChanges outOfStep) = settingsABC"
    by (simp_all add: outOfStep_def browserABC_def dispatchChanges_def)
  have bad: "outcome secondCallFails (nextCall browserABC) = None"
    "outcome secondCallFails (Suc (nextCall browserABC)) = Some invalidPattern"
    by (simp_all add: secondCallFails_def browserABC_def)
  note good = clickClearAll_sequence_and_idempotence[of allSucceed browserABC, unfolded Let_def]
  note stale = clickClearAll_sequence_and_idempotence[of allSucceed outOfStep, unfolded Let_def]
  note fail = clickClearAll_sequence_and_idempotence[of secondCallFails browserABC invalidPattern]
  from good ok sync start have
    "calls (trace (snd (clickClearAll allSucceed True browserABC))) = [CookiesClear, SyncClear]"
    "syncStore (dispatchChanges (snd (clickClearAll allSucceed True browserABC))) = None"
    "currentSettings (dispatchChanges (snd (clickClearAll allSucceed True browserABC))) = []"
    "fst (clickClearAll allSucceed True
            (dispatchChanges (snd (clickClearAll allSucceed True browserABC)))) = Inr ()"
    "syncStore (snd (clickClearAll allSucceed True
            (dispatchChanges (snd (clickClearAll allSucceed True browserABC))))) = None"
    by simp_all
  moreover from stale ok oos have
    "syncStore (snd (clickClearAll allSucceed True outOfStep)) = None"
    "currentSettings (dispatchChanges (snd (clickClearAll allSucceed True outOfStep)))
       = settingsABC"
    by simp_all
  moreover from fail bad start have
    "fst (clickClearAll secondCallFails True browserABC) = Inl invalidPattern"
    "syncStore (snd (clickClearAll secondCallFails True browserABC)) = Some settingsABC"
    "currentSettings (snd (clickClearAll secondCallFails True browserABC)) = settingsABC"
    by simp_all
  ultimately show ?thesis using ok sync bad by simp
qed

section \<open>The promise adapter and the status line\<close>

text \<open>
  C6. When Chrome runs the callback of a call with \<^verbatim>\<open>lastError\<close> set, the promise is
  rejected with that error; when \<^verbatim>\<open>lastError\<close> is not set, the promise is fulfilled
  with exactly the value Chrome handed to the callback, which is \<^verbatim>\<open>undefined\<close> when
  Chrome handed over nothing.
\<close>

theorem api_promise_follows_lastError:
  "(lastError (snd (chromeCompletes env p w)) = Some e
      \<longrightarrow> fst (callback env p w) = Inl e)
   \<and> (lastError (snd (chromeCompletes env p w)) = None
      \<longrightarrow> fst (callback env p w) = Inr (fst (chromeCompletes env p w)))
   \<and> cb (Some e) v = Inl e
   \<and> cb None v = Inr v
   \<and> cb None Undefined = Inr Undefined"
  by (simp add: callback_eq)

text \<open>A failed clear, a successful \<^verbatim>\<open>get\<close> and a successful clear.\<close>

theorem api_promise_follows_lastError_witness:
  "lastError (snd (chromeCompletes firstCallFails (0, CookiesClear) browserABC)) = Some invalidPattern
   \<and> fst (callback firstCallFails (0, CookiesClear) browserABC) = Inl invalidPattern
   \<and> lastError (snd (chromeCompletes allSucceed (0, SyncGet) browserABC)) = None
   \<and> fst (callback allSucceed (0, SyncGet) browserABC) = Inr (Items (Some settingsABC))
   \<and> fst (callback allSucceed (0, CookiesClear) browserABC) = Inr Undefined"
proof -
  have a: "lastError (snd (chromeCompletes firstCallFails (0, CookiesClear) browserABC))
             = Some invalidPattern"
    by (simp add: firstCallFails_def)
  have b: "lastError (snd (chromeCompletes allSucceed (0, SyncGet) browserABC)) = None"
    "lastError (snd (chromeCompletes allSucceed (0, CookiesClear) browserABC)) = None"
    by (simp_all add: allSucceed_def)
  have v: "fst (chromeCompletes allSucceed (0, SyncGet) browserABC) = Items (Some settingsABC)"
    "fst (chromeCompletes allSucceed (0, CookiesClear) browserABC) = Undefined"
    by (simp_all add: chromeCompletes_store allSucceed_def browserABC_def)
  from api_promise_follows_lastError[of firstCallFails "(0, CookiesClear)" browserABC invalidPattern]
       api_promise_follows_lastError[of allSucceed "(0, SyncGet)" browserABC]
       api_promise_follows_lastError[of allSucceed "(0, CookiesClear)" browserABC]
       a b v
  show ?thesis by simp
qed

lemma submitAddForm_cases:
  "submitAddForm env a b s w =
     (let entry = \<lparr>primaryPattern = autoCompletePath a,
                   secondaryPattern = (if b \<noteq> [] then Some (autoCompletePath b) else None),
                   setting = s\<rparr>;
          w1 = snd (await env (CookiesSet entry) w)
      in case outcome env (nextCall w) of
           Some err \<Rightarrow> (Inl err, w1)
         | None \<Rightarrow>
             (case outcome env (Suc (nextCall w)) of Some err \<Rightarrow> Inl err | None \<Rightarrow> Inr (),
              snd (await env (SyncSet (AList.update (keyForEntry entry) entry (currentSettings w))) w1)))"
  by (simp add: submitAddForm_def Let_def split_beta split: option.splits)

text \<open>
  C7. When a call made through the page's \<^verbatim>\<open>api\<close> settles, the status is updated
  exactly once, right after the callback, whether the call succeeded or failed. The text
  shown is the error's message when \<^verbatim>\<open>lastError\<close> is set (\<^verbatim>\<open>Unknown error\<close> when the
  error has no message or an empty one) and empty otherwise. The update changes the
  status text and nothing else: the promise's outcome and the rest of the state are those
  the callback left. Hence in \<open>removeEntry\<close>, in the add form's handler and in the handler
  that clears all, the number of status updates is the number of calls made, and
  completing \<open>n\<close> outstanding calls updates the status \<open>n\<close> times.
\<close>

theorem status_updated_once_after_each_call:
  "trace (snd (settle env p w))
     = trace (snd (callback env p w))
       @ [StatusUpdate (case lastError (snd (callback env p w)) of
                          None \<Rightarrow> []
                        | Some err \<Rightarrow>
                            (case message err of
                               Some m \<Rightarrow> if m = [] then ''Unknown error'' else m
                             | None \<Rightarrow> ''Unknown error''))]
   \<and> statusText (snd (settle env p w))
     = (case lastError (snd (callback env p w)) of
          None \<Rightarrow> []
        | Some err \<Rightarrow>
            (case message err of
               Some m \<Rightarrow> if m = [] then ''Unknown error'' else m
             | None \<Rightarrow> ''Unknown error''))
   \<and> fst (settle env p w) = fst (callback env p w)
   \<and> currentSettings (snd (settle env p w)) = currentSettings (snd (callback env p w))
   \<and> syncStore (snd (settle env p w)) = syncStore (snd (callback env p w))
   \<and> changes (snd (settle env p w)) = changes (snd (callback env p w))
   \<and> pending (snd (settle env p w)) = pending (snd (callback env p w))
   \<and> nextCall (snd (settle env p w)) = nextCall (snd (callback env p w))
   \<and> statusUpdates (trace (snd (await env c w))) = Suc (statusUpdates (trace w))
   \<and> statusUpdates (trace (snd (removeEntry env entry w))) + length (calls (trace w))
     = statusUpdates (trace w) + length (calls (trace (snd (removeEntry env entry w))))
   \<and> statusUpdates (trace (snd (clickClearAll env confirmed w))) + length (calls (trace w))
     = statusUpdates (trace w) + length (calls (trace (snd (clickClearAll env confirmed w))))
   \<and> statusUpdates (trace (snd (submitAddForm env a b s w))) + length (calls (trace w))
     = statusUpdates (trace w) + length (calls (trace (snd (submitAddForm env a b s w))))
   \<and> statusUpdates (trace (settleAll env ps w)) = statusUpdates (trace w) + length ps"
proof (intro conjI)
  show "statusUpdates (trace (snd (removeEntry env entry w))) + length (calls (trace w))
     = statusUpdates (trace w) + length (calls (trace (snd (removeEntry env entry w))))"
    by (cases "outcome env (nextCall w)")
       (simp_all add: removeEntry_cleared removeEntry_failed_clear Let_def)
  show "statusUpdates (trace (snd (clickClearAll env confirmed w))) + length (calls (trace w))
     = statusUpdates (trace w) + length (calls (trace (snd (clickClearAll env confirmed w))))"
  proof (cases confirmed)
    case True
    then show ?thesis
      by (cases "outcome env (nextCall w)")
         (simp_all add: clickClearAll_cleared_engine clickClearAll_failed_engine)
  next
    case False
    then show ?thesis by (simp add: clickClearAll_def)
  qed
  show "statusUpdates (trace (snd (submitAddForm env a b s w))) + length (calls (trace w))
     = statusUpdates (trace w) + length (calls (trace (snd (submitAddForm env a b s w))))"
    by (cases "outcome env (nextCall w)") (simp_all add: submitAddForm_cases Let_def)
  show "statusUpdates (trace (settleAll env ps w)) = statusUpdates (trace w) + length ps"
    by (simp add: settleAll_frame)
qed (simp_all add: callback_eq rendered_def)

section \<open>The page's copy of the rule set\<close>

lemma initialFetch_loaded:
  assumes "outcome env (nextCall w) = None"
  shows "fst (initialFetch env w) = Inr ()"
    and "currentSettings (snd (initialFetch env w))
           = (case syncStore w of Some s \<Rightarrow> s | None \<Rightarrow> [])"
    and "statusText (snd (initialFetch env w)) = []"
  using assms
  by (simp_all add: initialFetch_def split_beta chromeCompletes_store onSyncedSettings_def
        rendered_def)

text \<open>
  C8. A missing value is an empty rule set, not an error: \<open>onSyncedSettings\<close> applied to
  \<^verbatim>\<open>undefined\<close> sets the page's rule set to the empty one; when the store holds nothing
  and the initial \<^verbatim>\<open>get\<close> succeeds, the fetch succeeds, the page's rule set is empty and
  the status line is empty; and a change event whose new value is missing sets the page's
  rule set to the empty one.
\<close>

theorem absent_value_gives_empty_settings:
  "currentSettings (onSyncedSettings None w) = []
   \<and> (syncStore w = None \<and> outcome env (nextCall w) = None \<longrightarrow>
        fst (initialFetch env w) = Inr ()
        \<and> currentSettings (snd (initialFetch env w)) = []
        \<and> statusText (snd (initialFetch env w)) = [])
   \<and> currentSettings (onChangedListener (Some \<lparr>oldValue = old, newValue = None\<rparr>) w) = []
   \<and> (newValue change = None \<longrightarrow> currentSettings (onChangedListener (Some change) w) = [])"
  using initialFetch_loaded[of env w]
  by (simp add: onSyncedSettings_def onChangedListener_def)

text \<open>The initial fetch over an empty store, and a change event that reports a removal.\<close>

theorem absent_value_gives_empty_settings_witness:
  "syncStore emptyBrowser = None \<and> outcome allSucceed (nextCall emptyBrowser) = None
   \<and> fst (initialFetch allSucceed emptyBrowser) = Inr ()
   \<and> currentSettings (snd (initialFetch allSucceed emptyBrowser)) = []
   \<and> newValue \<lparr>oldValue = Some settingsABC, newValue = None\<rparr> = None
   \<and> currentSettings
        (onChangedListener (Some \<lparr>oldValue = Some settingsABC, newValue = None\<rparr>) browserABC) = []"
proof -
  have a: "syncStore emptyBrowser = None" "outcome allSucceed (nextCall emptyBrowser) = None"
    by (simp_all add: emptyBrowser_def allSucceed_def)
  have b: "newValue \<lparr>oldValue = Some settingsABC, newValue = None\<rparr> = None" by simp
  from absent_value_gives_empty_settings
         [of emptyBrowser allSucceed "Some settingsABC"
             "\<lparr>oldValue = Some settingsABC, newValue = None\<rparr>"]
       absent_value_gives_empty_settings
         [of browserABC allSucceed "Some settingsABC"
             "\<lparr>oldValue = Some settingsABC, newValue = None\<rparr>"]
       a b
  show ?thesis by simp
qed

lemma await_SyncSet_then_dispatch:
  assumes "outcome env (nextCall w) = None" "inSync w"
  shows "syncStore (snd (await env (SyncSet v) w)) = Some v"
    and "currentSettings (dispatchChanges (snd (await env (SyncSet v) w))) = v"
  using assms
  by (auto simp: await_store chromeCompletes_store inSync_def dispatchChanges_mirror)

text \<open>
  C9. Writing a rule set to the store leaves \<^verbatim>\<open>currentSettings\<close> as it is, and so do
  \<open>removeEntry\<close>, the add form's handler, the handlers of the two buttons, and the
  completion of outstanding calls. \<^verbatim>\<open>currentSettings\<close> is written by the initial fetch
  and by the change listener: after a successful write to the store, the page's rule set
  becomes the written one when the change event is delivered.
\<close>

theorem persisting_leaves_mirror_unchanged:
  "currentSettings (snd (await env (SyncSet v) w)) = currentSettings w
   \<and> currentSettings (snd (removeEntry env entry w)) = currentSettings w
   \<and> currentSettings (snd (submitAddForm env a b s w)) = currentSettings w
   \<and> currentSettings (clickSetAll w) = currentSettings w
   \<and> currentSettings (snd (clickClearAll env confirmed w)) = currentSettings w
   \<and> currentSettings (settleAll env ps w) = currentSettings w
   \<and> (outcome env (nextCall w) = None \<longrightarrow>
        currentSettings (snd (initialFetch env w))
          = (case syncStore w of Some s \<Rightarrow> s | None \<Rightarrow> []))
   \<and> currentSettings (onChangedListener (Some change) w)
        = (case newValue change of Some s \<Rightarrow> s | None \<Rightarrow> [])
   \<and> (outcome env (nextCall w) = None \<and> inSync w \<longrightarrow>
        syncStore (snd (await env (SyncSet v) w)) = Some v
        \<and> currentSettings (dispatchChanges (snd (await env (SyncSet v) w))) = v)"
proof (intro conjI impI)
  show "currentSettings (snd (submitAddForm env a b s w)) = currentSettings w"
    by (cases "outcome env (nextCall w)") (simp_all add: submitAddForm_cases Let_def)
  show "currentSettings (snd (clickClearAll env confirmed w)) = currentSettings w"
  proof (cases confirmed)
    case True
    then show ?thesis
      by (cases "outcome env (nextCall w)")
         (simp_all add: clickClearAll_cleared_engine clickClearAll_failed_engine)
  next
    case False
    then show ?thesis by (simp add: clickClearAll_def)
  qed
  show "currentSettings (snd (initialFetch env w))
          = (case syncStore w of Some s \<Rightarrow> s | None \<Rightarrow> [])"
    if "outcome env (nextCall w) = None"
    using that by (rule initialFetch_loaded(2))
  show "syncStore (snd (await env (SyncSet v) w)) = Some v"
    if "outcome env (nextCall w) = None \<and> inSync w"
    using that await_SyncSet_then_dispatch(1) by blast
  show "currentSettings (dispatchChanges (snd (await env (SyncSet v) w))) = v"
    if "outcome env (nextCall w) = None \<and> inSync w"
    using that await_SyncSet_then_dispatch(2) by blast
qed (simp_all add: removeEntry_mirror clickSetAll_eq settleAll_frame
       onSyncedSettings_def onChangedListener_def)

text \<open>Persisting the single rule \<open>C\<close> from the page that holds \<open>A\<close>, \<open>B\<close>, \<open>C\<close>.\<close>

theorem persisting_leaves_mirror_unchanged_witness:
  "outcome allSucceed (nextCall browserABC) = None \<and> inSync browserABC
   \<and> currentSettings (snd (await allSucceed (SyncSet [(keyForEntry entryC, entryC)]) browserABC))
       = settingsABC
   \<and> syncStore (snd (await allSucceed (SyncSet [(keyForEntry entryC, entryC)]) browserABC))
       = Some [(keyForEntry entryC, entryC)]
   \<and> currentSettings
        (dispatchChanges (snd (await allSucceed (SyncSet [(keyForEntry entryC, entryC)]) browserABC)))
       = [(keyForEntry entryC, entryC)]
   \<and> currentSettings (snd (initialFetch allSucceed browserABC)) = settingsABC"
proof -
  have ok: "outcome allSucceed (nextCall browserABC) = None" by (simp add: allSucceed_def)
  have sync: "inSync browserABC" by (simp add: inSync_def browserABC_def)
  have start: "currentSettings browserABC = settingsABC" "syncStore browserABC = Some settingsABC"
    by (simp_all add: browserABC_def)
  note main = persisting_leaves_mirror_unchanged
                [of allSucceed "[(keyForEntry entryC, entryC)]" browserABC]
  from main ok sync start show ?thesis by simp
qed

section \<open>Completing a pattern\<close>

text \<open>
  C10, as the specification states it: every input that is not a scheme and a host with
  no path is returned unchanged. \<^verbatim>\<open>file:///foo\<close> has an empty host and the path
  \<^verbatim>\<open>/foo\<close>, and \<^verbatim>\<open>http://a.com/x//b\<close> has the path \<^verbatim>\<open>/x//b\<close>; both are completed,
  because the dot of the regular expression also matches slashes.
\<close>

theorem autoCompletePath_completes_a_file_path:
  "\<not> spec_scheme_and_host_only ''file:///foo''
   \<and> autoCompletePath ''file:///foo'' = ''file:///foo/*''
   \<and> autoCompletePath ''file:///foo'' \<noteq> ''file:///foo''
   \<and> \<not> spec_scheme_and_host_only ''http://a.com/x//b''
   \<and> autoCompletePath ''http://a.com/x//b'' = ''http://a.com/x//b/*''"
  by (simp add: spec_scheme_and_host_only_def stripSlash_def autoCompletePath_def match1_def
        patternWithoutPath_def greedyPlus_def matchLiteral_def greedyOpt_def isLineTerminator_def)

text \<open>
  C10, amended: \<open>autoCompletePath\<close> appends \<^verbatim>\<open>/*\<close>, after dropping one trailing slash,
  to every input that with or without that slash is a non-empty prefix free of line
  terminators, then \<^verbatim>\<open>//\<close>, then a non-empty segment free of slashes; the prefix may
  contain slashes. This covers every scheme and host with no path whose scheme has no
  line terminator. Every other input is returned unchanged, and \<open>autoCompletePath\<close> is
  idempotent on every string.
\<close>

theorem autoCompletePath_characterisation:
  "(x \<noteq> [] \<and> (\<forall>c\<in>set x. \<not> isLineTerminator c) \<and> y \<noteq> [] \<and> CHR ''/'' \<notin> set y
      \<longrightarrow> autoCompletePath (x @ ''//'' @ y) = x @ ''//'' @ y @ ''/*''
        \<and> autoCompletePath (x @ ''//'' @ y @ ''/'') = x @ ''//'' @ y @ ''/*'')
   \<and> (spec_scheme_and_host_only p
        \<and> (\<forall>c\<in>set (takeWhile (\<lambda>c. c \<noteq> CHR ''/'') p). \<not> isLineTerminator c)
      \<longrightarrow> autoCompletePath p = stripSlash p @ ''/*'')
   \<and> (completable p \<longrightarrow> autoCompletePath p = stripSlash p @ ''/*'')
   \<and> (\<not> completable p \<longrightarrow> autoCompletePath p = p)
   \<and> autoCompletePath (autoCompletePath p) = autoCompletePath p"
proof (intro conjI impI)
  assume a: "x \<noteq> [] \<and> (\<forall>c\<in>set x. \<not> isLineTerminator c) \<and> y \<noteq> [] \<and> CHR ''/'' \<notin> set y"
  then have y: "y \<noteq> []" "CHR ''/'' \<notin> set y" by simp_all
  have "completable (x @ ''//'' @ y)" "completable (x @ ''//'' @ y @ ''/'')"
    using a unfolding completable_def by blast+
  then show "autoCompletePath (x @ ''//'' @ y) = x @ ''//'' @ y @ ''/*''"
    "autoCompletePath (x @ ''//'' @ y @ ''/'') = x @ ''//'' @ y @ ''/*''"
    using stripSlash_match[OF y, of x] by (simp_all add: autoCompletePath_eq)
next
  assume "spec_scheme_and_host_only p
        \<and> (\<forall>c\<in>set (takeWhile (\<lambda>c. c \<noteq> CHR ''/'') p). \<not> isLineTerminator c)"
  then have "completable p" using spec_scheme_and_host_only_completable by blast
  then show "autoCompletePath p = stripSlash p @ ''/*''" by (simp add: autoCompletePath_eq)
next
  assume "completable p"
  then show "autoCompletePath p = stripSlash p @ ''/*''" by (simp add: autoCompletePath_eq)
next
  assume "\<not> completable p"
  then show "autoCompletePath p = p" by (simp add: autoCompletePath_eq)
next
  show "autoCompletePath (autoCompletePath p) = autoCompletePath p" by (rule autoCompletePath_idem)
qed

lemma not_completable_example: "\<not> completable ''https://a.com/*''"
proof -
  have "patternWithoutPath ''https://a.com/*'' = []"
    by (simp add: patternWithoutPath_def greedyPlus_def matchLiteral_def greedyOpt_def
          isLineTerminator_def)
  then show ?thesis using patternWithoutPath_nonempty_iff[of "''https://a.com/*''"] by simp
qed

text \<open>A host with and without the trailing slash, and a pattern that is already complete.\<close>

theorem autoCompletePath_characterisation_witness:
  "autoCompletePath ''https://a.com'' = ''https://a.com/*''
   \<and> autoCompletePath ''https://a.com/'' = ''https://a.com/*''
   \<and> autoCompletePath ''https://a.com/*'' = ''https://a.com/*''
   \<and> spec_scheme_and_host_only ''https://a.com/''
   \<and> stripSlash ''https://a.com/'' = ''https://a.com''
   \<and> autoCompletePath (autoCompletePath ''https://a.com/'') = autoCompletePath ''https://a.com/''"
proof -
  have h: "''https:'' \<noteq> [] \<and> (\<forall>c\<in>set ''https:''. \<not> isLineTerminator c) \<and> ''a.com'' \<noteq> []
             \<and> CHR ''/'' \<notin> set ''a.com''"
    by (simp add: isLineTerminator_def)
  have s: "spec_scheme_and_host_only ''https://a.com/''"
    "stripSlash ''https://a.com/'' = ''https://a.com''"
    by (simp_all add: spec_scheme_and_host_only_def stripSlash_def)
  note a = autoCompletePath_characterisation[of "''https:''" "''a.com''" "''https://a.com/*''"]
  note b = autoCompletePath_characterisation[of "''https:''" "''a.com''" "''https://a.com/''"]
  from a b h s not_completable_example show ?thesis by simp
qed

end
